theory Spec2Isabelle
  imports Complex_Main "HOL-Library.Word"
begin

section \<open>JavaScript values\<close>

text \<open>
  A JavaScript string is a sequence of UTF-16 code units; \<open>length\<close>, \<open>slice\<close>, \<open>trim\<close>
  and the regular expressions of the source (none has the \<open>u\<close> flag) all count and
  match code units.
\<close>

type_synonym jsstring = "16 word list"

definition lit :: "string \<Rightarrow> jsstring" where
  "lit s = map (\<lambda>c. word_of_nat (of_char c)) s"

text \<open>
  A JavaScript number is a double. The transfer code only tests numbers for finiteness,
  subtracts two of them to read the sign of the difference (the sort comparators) and takes
  \<open>Math.min\<close>. The sign of a difference of two finite doubles is the sign of the exact
  difference, and \<open>Math.min\<close> returns one of its arguments, so a finite number is modelled
  by its exact rational value; the three non-finite values are kept apart.
\<close>

datatype number = Fin rat | PosInf | NegInf | NaN

fun isFinite :: "number \<Rightarrow> bool" where
  "isFinite (Fin x) = True"
| "isFinite _ = False"

fun num_sub :: "number \<Rightarrow> number \<Rightarrow> number" where
  "num_sub NaN _ = NaN"
| "num_sub _ NaN = NaN"
| "num_sub (Fin a) (Fin b) = Fin (a - b)"
| "num_sub (Fin a) PosInf = NegInf"
| "num_sub (Fin a) NegInf = PosInf"
| "num_sub PosInf PosInf = NaN"
| "num_sub PosInf _ = PosInf"
| "num_sub NegInf NegInf = NaN"
| "num_sub NegInf _ = NegInf"

text \<open>\<open>Math.min\<close> of two numbers.\<close>

fun num_min :: "number \<Rightarrow> number \<Rightarrow> number" where
  "num_min NaN _ = NaN"
| "num_min _ NaN = NaN"
| "num_min NegInf _ = NegInf"
| "num_min _ NegInf = NegInf"
| "num_min PosInf y = y"
| "num_min x PosInf = x"
| "num_min (Fin a) (Fin b) = Fin (min a b)"

text \<open>
  The values the code can be handed (\<open>unknown\<close>): what \<open>JSON.parse\<close> produces, plus
  \<open>undefined\<close>, which reading a missing property yields. An object is the list of its own
  properties, every key once (in a list that repeats a key the first entry is the property).
\<close>

datatype jsvalue =
    JUndefined
  | JNull
  | JBool bool
  | JNum number
  | JStr jsstring
  | JArr "jsvalue list"
  | JObj "(jsstring \<times> jsvalue) list"

text \<open>Property access \<open>obj.k\<close> on a plain object: \<open>undefined\<close> when there is no such key.\<close>

definition getProp :: "(jsstring \<times> jsvalue) list \<Rightarrow> jsstring \<Rightarrow> jsvalue" where
  "getProp obj k = (case map_of obj k of None \<Rightarrow> JUndefined | Some v \<Rightarrow> v)"

subsection \<open>White space, \<open>trim\<close>, \<open>slice\<close> and global replacement\<close>

text \<open>
  The code units that the white-space class of regular expressions matches and that
  \<open>String.prototype.trim\<close> removes: the WhiteSpace and LineTerminator productions of
  ECMAScript.
\<close>

definition isSpace :: "16 word \<Rightarrow> bool" where
  "isSpace c \<longleftrightarrow>
     c = 0x9 \<or> c = 0xA \<or> c = 0xB \<or> c = 0xC \<or> c = 0xD \<or> c = 0x20 \<or> c = 0xA0 \<or>
     c = 0x1680 \<or> (0x2000 \<le> c \<and> c \<le> 0x200A) \<or> c = 0x2028 \<or> c = 0x2029 \<or>
     c = 0x202F \<or> c = 0x205F \<or> c = 0x3000 \<or> c = 0xFEFF"

definition trim :: "jsstring \<Rightarrow> jsstring" where
  "trim s = rev (dropWhile isSpace (rev (dropWhile isSpace s)))"

text \<open>
  \<open>s.replace(/[...]+/g, rep)\<close> for a character class \<open>P\<close>: every maximal run of code
  units in the class is replaced by \<open>rep\<close>.
\<close>

function replaceRuns :: "(16 word \<Rightarrow> bool) \<Rightarrow> jsstring \<Rightarrow> jsstring \<Rightarrow> jsstring" where
  "replaceRuns P rep [] = []"
| "replaceRuns P rep (c # cs) =
     (if P c then rep @ replaceRuns P rep (dropWhile P cs)
      else c # replaceRuns P rep cs)"
  by pat_completeness auto
termination
  by (relation "measure (\<lambda>(P, rep, s). length s)")
     (auto simp: length_dropWhile_le le_imp_less_Suc)

section \<open>The domain types\<close>

record TradeRecord =
  rec_id :: jsstring
  grams :: number
  costPrice :: number
  sellingPrice :: number
  handlingFeeRate :: number
  actualProfit :: number
  desiredPrice :: number
  projectedProfit :: number
  profitMargin :: number
  timestamp :: number

record Ledger =
  ledger_id :: jsstring
  name :: jsstring
  records :: "TradeRecord list"
  createdAt :: number

section \<open>\<open>Array.prototype.sort\<close> with a comparator\<close>

text \<open>
  The sort is stable. A comparator result counts as "first argument after the second" when it
  is greater than zero; \<open>NaN\<close> counts as zero. For a consistent comparator the result of a
  stable sort is determined, and insertion from the right computes it. With a \<open>NaN\<close> key the
  comparator is not consistent and the order the engine produces is implementation-defined:
  every fact below about the order of a sorted list is stated for finite keys only.
\<close>

fun positive :: "number \<Rightarrow> bool" where
  "positive (Fin x) = (0 < x)"
| "positive PosInf = True"
| "positive _ = False"

fun insertSorted :: "('a \<Rightarrow> 'a \<Rightarrow> number) \<Rightarrow> 'a \<Rightarrow> 'a list \<Rightarrow> 'a list" where
  "insertSorted cmp x [] = [x]"
| "insertSorted cmp x (y # ys) =
     (if positive (cmp x y) then y # insertSorted cmp x ys else x # y # ys)"

definition arraySort :: "('a \<Rightarrow> 'a \<Rightarrow> number) \<Rightarrow> 'a list \<Rightarrow> 'a list" where
  "arraySort cmp xs = foldr (insertSorted cmp) xs []"

text \<open>The two comparators of the source.\<close>

definition byTimestampDesc :: "TradeRecord \<Rightarrow> TradeRecord \<Rightarrow> number" where
  "byTimestampDesc a b = num_sub (timestamp b) (timestamp a)"

definition byCreatedAtAsc :: "Ledger \<Rightarrow> Ledger \<Rightarrow> number" where
  "byCreatedAtAsc a b = num_sub (createdAt a) (createdAt b)"

section \<open>Value coercion\<close>

definition asString :: "jsvalue \<Rightarrow> jsstring option" where
  "asString v = (case v of JStr s \<Rightarrow> Some s | _ \<Rightarrow> None)"

text \<open>
  \<open>Number(value)\<close> on a string is the conversion of the language, not code of this
  program: it is the parameter \<open>toNumber\<close> of everything that coerces numbers.
\<close>

definition asNumber :: "(jsstring \<Rightarrow> number) \<Rightarrow> jsvalue \<Rightarrow> number option" where
  "asNumber toNumber v =
     (case v of
        JNum n \<Rightarrow> (if isFinite n then Some n else None)
      | JStr s \<Rightarrow>
          (if trim s \<noteq> [] then
             (let n = toNumber s in if isFinite n then Some n else None)
           else None)
      | _ \<Rightarrow> None)"

text \<open>
  Falsy values (\<open>undefined\<close>, \<open>null\<close>, \<open>false\<close>, \<open>0\<close>, \<open>NaN\<close>, the empty string), other
  non-objects and arrays are all refused.
\<close>

definition asRecordObject :: "jsvalue \<Rightarrow> (jsstring \<times> jsvalue) list option" where
  "asRecordObject v = (case v of JObj ps \<Rightarrow> Some ps | _ \<Rightarrow> None)"

section \<open>Normalisation\<close>

text \<open>\<open>!s\<close> for a value that is a string or \<open>null\<close>.\<close>

definition missing :: "jsstring option \<Rightarrow> bool" where
  "missing s \<longleftrightarrow> s = None \<or> s = Some []"

definition normalizeTradeRecord :: "(jsstring \<Rightarrow> number) \<Rightarrow> jsvalue \<Rightarrow> TradeRecord option" where
  "normalizeTradeRecord toNumber v =
     (case asRecordObject v of
        None \<Rightarrow> None
      | Some obj \<Rightarrow>
          (let i = asString (getProp obj (lit ''id''));
               g = asNumber toNumber (getProp obj (lit ''grams''));
               cp = asNumber toNumber (getProp obj (lit ''costPrice''));
               sp = asNumber toNumber (getProp obj (lit ''sellingPrice''));
               hfr = asNumber toNumber (getProp obj (lit ''handlingFeeRate''));
               ap = asNumber toNumber (getProp obj (lit ''actualProfit''));
               dp = asNumber toNumber (getProp obj (lit ''desiredPrice''));
               pp = asNumber toNumber (getProp obj (lit ''projectedProfit''));
               pm = asNumber toNumber (getProp obj (lit ''profitMargin''));
               ts = asNumber toNumber (getProp obj (lit ''timestamp''))
           in if missing i \<or> g = None \<or> cp = None \<or> sp = None \<or> hfr = None \<or> ap = None \<or>
                 dp = None \<or> pp = None \<or> pm = None \<or> ts = None
              then None
              else Some \<lparr>rec_id = the i, grams = the g, costPrice = the cp,
                         sellingPrice = the sp, handlingFeeRate = the hfr,
                         actualProfit = the ap, desiredPrice = the dp,
                         projectedProfit = the pp, profitMargin = the pm,
                         timestamp = the ts\<rparr>))"

text \<open>
  The loop of \<open>normalizeLedger\<close> over the raw records, with its two accumulators: the
  records kept so far and the set of ids seen. A record that fails ends the loop with
  \<open>null\<close>.
\<close>

fun collectRecords ::
  "(jsstring \<Rightarrow> number) \<Rightarrow> jsvalue list \<Rightarrow> TradeRecord list \<Rightarrow> jsstring set \<Rightarrow>
     TradeRecord list option" where
  "collectRecords toNumber [] recs seen = Some recs"
| "collectRecords toNumber (item # rest) recs seen =
     (case normalizeTradeRecord toNumber item of
        None \<Rightarrow> None
      | Some r \<Rightarrow>
          (if rec_id r \<in> seen then collectRecords toNumber rest recs seen
           else collectRecords toNumber rest (recs @ [r]) (insert (rec_id r) seen)))"

definition isArray :: "jsvalue \<Rightarrow> jsvalue list option" where
  "isArray v = (case v of JArr xs \<Rightarrow> Some xs | _ \<Rightarrow> None)"

definition normalizeLedger :: "(jsstring \<Rightarrow> number) \<Rightarrow> jsvalue \<Rightarrow> Ledger option" where
  "normalizeLedger toNumber v =
     (case asRecordObject v of
        None \<Rightarrow> None
      | Some obj \<Rightarrow>
          (let i = asString (getProp obj (lit ''id''));
               n = asString (getProp obj (lit ''name''));
               c = asNumber toNumber (getProp obj (lit ''createdAt''));
               rawRecords = isArray (getProp obj (lit ''records''))
           in if missing i \<or> missing n \<or> c = None \<or> rawRecords = None then None
              else (case collectRecords toNumber (the rawRecords) [] {} of
                      None \<Rightarrow> None
                    | Some recs \<Rightarrow>
                        Some \<lparr>ledger_id = the i, name = the n,
                              records = arraySort byTimestampDesc recs,
                              createdAt = the c\<rparr>)))"

section \<open>Merging ledgers\<close>

text \<open>
  A JavaScript \<open>Map\<close> keeps its keys in the order of their first insertion: \<open>set\<close> on a
  key already present replaces the value where it stands, \<open>get\<close> is \<^const>\<open>map_of\<close>, and
  \<open>values()\<close> lists the values in key order.
\<close>

fun mapSet :: "'k \<Rightarrow> 'v \<Rightarrow> ('k \<times> 'v) list \<Rightarrow> ('k \<times> 'v) list" where
  "mapSet k v [] = [(k, v)]"
| "mapSet k v (p # ps) = (if fst p = k then (k, v) # ps else p # mapSet k v ps)"

definition mapValues :: "('k \<times> 'v) list \<Rightarrow> 'v list" where
  "mapValues m = map snd m"

text \<open>
  Both merges build the merged records in the same way: the records already there, then the
  incoming ones whose id is not among them, the whole re-sorted.
\<close>

definition mergedRecords :: "TradeRecord list \<Rightarrow> TradeRecord list \<Rightarrow> TradeRecord list" where
  "mergedRecords prev incoming =
     (let seen = set (map rec_id prev)
      in arraySort byTimestampDesc (prev @ filter (\<lambda>r. rec_id r \<notin> seen) incoming))"

text \<open>One turn of the loop of \<open>dedupeLedgersById\<close>.\<close>

definition dedupeStep :: "Ledger \<Rightarrow> (jsstring \<times> Ledger) list \<Rightarrow> (jsstring \<times> Ledger) list" where
  "dedupeStep l m =
     (case map_of m (ledger_id l) of
        None \<Rightarrow> mapSet (ledger_id l) l m
      | Some prev \<Rightarrow>
          mapSet (ledger_id l)
            \<lparr>ledger_id = ledger_id prev,
             name = (if name l \<noteq> [] then name l else name prev),
             records = mergedRecords (records prev) (records l),
             createdAt = num_min (createdAt prev) (createdAt l)\<rparr> m)"

definition dedupeLedgersById :: "Ledger list \<Rightarrow> Ledger list" where
  "dedupeLedgersById ls = arraySort byCreatedAtAsc (mapValues (fold dedupeStep ls []))"

text \<open>\<open>mergeLedgers\<close> of the application: the map is seeded with the current ledgers.\<close>

definition seedStep :: "Ledger \<Rightarrow> (jsstring \<times> Ledger) list \<Rightarrow> (jsstring \<times> Ledger) list" where
  "seedStep l m = mapSet (ledger_id l) l m"

definition mergeStep :: "Ledger \<Rightarrow> (jsstring \<times> Ledger) list \<Rightarrow> (jsstring \<times> Ledger) list" where
  "mergeStep inLedger m =
     (case map_of m (ledger_id inLedger) of
        None \<Rightarrow> mapSet (ledger_id inLedger) inLedger m
      | Some existing \<Rightarrow>
          mapSet (ledger_id existing)
            (existing\<lparr>records := mergedRecords (records existing) (records inLedger)\<rparr>) m)"

definition mergeLedgers :: "Ledger list \<Rightarrow> Ledger list \<Rightarrow> Ledger list" where
  "mergeLedgers current incoming =
     arraySort byCreatedAtAsc (mapValues (fold mergeStep incoming (fold seedStep current [])))"

section \<open>The import classifier\<close>

record AllImport =
  ledgers :: "Ledger list"
  activeLedgerId :: "jsstring option"
  lang :: "jsstring option"
  theme :: "jsstring option"

text \<open>The loop that normalises every raw ledger and gives up at the first that fails.\<close>

fun collectLedgers ::
  "(jsstring \<Rightarrow> number) \<Rightarrow> jsvalue list \<Rightarrow> Ledger list \<Rightarrow> Ledger list option" where
  "collectLedgers toNumber [] acc = Some acc"
| "collectLedgers toNumber (l # rest) acc =
     (case normalizeLedger toNumber l of
        None \<Rightarrow> None
      | Some ledger \<Rightarrow> collectLedgers toNumber rest (acc @ [ledger]))"

definition normalizeAllImport :: "(jsstring \<Rightarrow> number) \<Rightarrow> jsvalue \<Rightarrow> AllImport option" where
  "normalizeAllImport toNumber input =
     (case asRecordObject input of
        None \<Rightarrow> None
      | Some obj \<Rightarrow>
          if getProp obj (lit ''schema'') = JStr (lit ''auragold.export'') \<and>
             getProp obj (lit ''kind'') = JStr (lit ''all'')
          then
            (case asRecordObject (getProp obj (lit ''payload'')) of
               None \<Rightarrow> None
             | Some payload \<Rightarrow>
                 (case isArray (getProp payload (lit ''ledgers'')) of
                    None \<Rightarrow> None
                  | Some ledgersRaw \<Rightarrow>
                      (case collectLedgers toNumber ledgersRaw [] of
                         None \<Rightarrow> None
                       | Some ls \<Rightarrow>
                           (let a = asString (getProp payload (lit ''activeLedgerId''));
                                lg = asString (getProp payload (lit ''lang''));
                                th = asString (getProp payload (lit ''theme''))
                            in Some \<lparr>ledgers = dedupeLedgersById ls,
                                     activeLedgerId = a,
                                     lang = (if lg = Some (lit ''en'') \<or> lg = Some (lit ''zh'')
                                             then lg else None),
                                     theme = (if th = Some (lit ''light'') \<or> th = Some (lit ''dark'')
                                              then th else None)\<rparr>))))
          else
            (case isArray input of
               Some xs \<Rightarrow>
                 (case collectLedgers toNumber xs [] of
                    None \<Rightarrow> None
                  | Some ls \<Rightarrow>
                      Some \<lparr>ledgers = dedupeLedgersById ls, activeLedgerId = None,
                            lang = None, theme = None\<rparr>)
             | None \<Rightarrow> None))"

section \<open>Export\<close>

text \<open>
  The export is written with \<open>JSON.stringify\<close> and read back with \<open>JSON.parse\<close>. What
  comes back is the value that went in, except that a number that is not finite is written
  as \<open>null\<close>.
\<close>

definition numberToJson :: "number \<Rightarrow> jsvalue" where
  "numberToJson n = (if isFinite n then JNum n else JNull)"

definition recordToJson :: "TradeRecord \<Rightarrow> jsvalue" where
  "recordToJson r =
     JObj [(lit ''id'', JStr (rec_id r)),
           (lit ''grams'', numberToJson (grams r)),
           (lit ''costPrice'', numberToJson (costPrice r)),
           (lit ''sellingPrice'', numberToJson (sellingPrice r)),
           (lit ''handlingFeeRate'', numberToJson (handlingFeeRate r)),
           (lit ''actualProfit'', numberToJson (actualProfit r)),
           (lit ''desiredPrice'', numberToJson (desiredPrice r)),
           (lit ''projectedProfit'', numberToJson (projectedProfit r)),
           (lit ''profitMargin'', numberToJson (profitMargin r)),
           (lit ''timestamp'', numberToJson (timestamp r))]"

definition ledgerToJson :: "Ledger \<Rightarrow> jsvalue" where
  "ledgerToJson l =
     JObj [(lit ''id'', JStr (ledger_id l)),
           (lit ''name'', JStr (name l)),
           (lit ''records'', JArr (map recordToJson (records l))),
           (lit ''createdAt'', numberToJson (createdAt l))]"

text \<open>
  The envelope that \<open>exportAllDataJson\<close> downloads, from the state of the application
  (its ledgers, the active ledger id, the language and the theme) and the time of export.
\<close>

definition exportAllDataJson ::
  "jsstring \<Rightarrow> Ledger list \<Rightarrow> jsstring \<Rightarrow> jsstring \<Rightarrow> jsstring \<Rightarrow> jsvalue" where
  "exportAllDataJson exportedAt ls active lg th =
     JObj [(lit ''schema'', JStr (lit ''auragold.export'')),
           (lit ''version'', JNum (Fin 1)),
           (lit ''kind'', JStr (lit ''all'')),
           (lit ''exportedAt'', JStr exportedAt),
           (lit ''payload'',
              JObj [(lit ''ledgers'', JArr (map ledgerToJson ls)),
                    (lit ''activeLedgerId'', JStr active),
                    (lit ''lang'', JStr lg),
                    (lit ''theme'', JStr th)])]"

section \<open>File names\<close>

text \<open>
  The character class of the first replacement: backslash, slash, colon, asterisk, question
  mark, double quote, less-than, greater-than and vertical bar.
\<close>

definition isReserved :: "16 word \<Rightarrow> bool" where
  "isReserved c \<longleftrightarrow>
     c = 0x5C \<or> c = 0x2F \<or> c = 0x3A \<or> c = 0x2A \<or> c = 0x3F \<or> c = 0x22 \<or>
     c = 0x3C \<or> c = 0x3E \<or> c = 0x7C"

definition safeFilename :: "jsstring \<Rightarrow> jsstring" where
  "safeFilename nm =
     (let s = take 80 (trim (replaceRuns isSpace (lit '' '')
                               (replaceRuns isReserved (lit ''-'') nm)))
      in if s = [] then lit ''auragold'' else s)"

section \<open>Notions used to state the properties\<close>

text \<open>The comparison \<open>a <= b\<close> of two numbers; it is false as soon as one is \<open>NaN\<close>.\<close>

fun num_le :: "number \<Rightarrow> number \<Rightarrow> bool" where
  "num_le NaN _ = False"
| "num_le _ NaN = False"
| "num_le NegInf _ = True"
| "num_le _ PosInf = True"
| "num_le (Fin a) (Fin b) = (a \<le> b)"
| "num_le _ _ = False"

text \<open>The value of a finite number.\<close>

fun finVal :: "number \<Rightarrow> rat" where
  "finVal (Fin x) = x"
| "finVal _ = 0"

text \<open>
  Of the records of a list, the first one of every id, in the order of the list: a record is
  kept and the later records with its id are dropped.
\<close>

primrec firstOccurrences :: "TradeRecord list \<Rightarrow> TradeRecord list" where
  "firstOccurrences [] = []"
| "firstOccurrences (r # rs) = r # filter (\<lambda>x. rec_id x \<noteq> rec_id r) (firstOccurrences rs)"

text \<open>
  The records that a list of raw values normalises to; it is used only where every raw value
  normalises.
\<close>

definition normalizedRecords :: "(jsstring \<Rightarrow> number) \<Rightarrow> jsvalue list \<Rightarrow> TradeRecord list" where
  "normalizedRecords N raw = map (\<lambda>item. the (normalizeTradeRecord N item)) raw"

text \<open>
  The invariant of the maps that the two merges build: no key occurs twice, and every ledger
  is stored under its own id.
\<close>

definition keyed :: "(jsstring \<times> Ledger) list \<Rightarrow> bool" where
  "keyed m \<longleftrightarrow> distinct (map fst m) \<and> (\<forall>p \<in> set m. ledger_id (snd p) = fst p)"

text \<open>The ledger stored under \<open>k\<close> has the record \<open>r\<close>, or a record of id \<open>i\<close>.\<close>

definition holds :: "jsstring \<Rightarrow> TradeRecord \<Rightarrow> (jsstring \<times> Ledger) list \<Rightarrow> bool" where
  "holds k r m \<longleftrightarrow> (\<exists>v. map_of m k = Some v \<and> r \<in> set (records v))"

definition holdsId :: "jsstring \<Rightarrow> jsstring \<Rightarrow> (jsstring \<times> Ledger) list \<Rightarrow> bool" where
  "holdsId k i m \<longleftrightarrow> (\<exists>v. map_of m k = Some v \<and> i \<in> rec_id ` set (records v))"

text \<open>
  The sanitiser as the specification words it: the reserved characters are stripped, runs of
  white space are collapsed, the result is trimmed and cut to 80 code units, and the default
  stands in for an empty result.
\<close>

definition sanitizeAsSpecified :: "jsstring \<Rightarrow> jsstring" where
  "sanitizeAsSpecified nm =
     (let s = take 80 (trim (replaceRuns isSpace (lit '' '')
                               (filter (\<lambda>c. \<not> isReserved c) nm)))
      in if s = [] then lit ''auragold'' else s)"

text \<open>
  The sanitiser as the amended claim words it. Of every maximal run of characters of a class
  only the first character is kept (a character of the class that directly follows one of the
  class is dropped), and the replacement is written for every character of the class that is
  left: so every maximal run is replaced by one copy of the replacement. The reserved runs
  become a hyphen, then the white-space runs a space; the result is trimmed, cut to 80 code
  units, and the default stands in for an empty result.
\<close>

definition runHeads :: "('a \<Rightarrow> bool) \<Rightarrow> 'a list \<Rightarrow> 'a list" where
  "runHeads P s =
     map snd (filter (\<lambda>(prev, c). \<not> (prev \<and> P c)) (zip (False # map P s) s))"

definition substituteRuns :: "(16 word \<Rightarrow> bool) \<Rightarrow> jsstring \<Rightarrow> jsstring \<Rightarrow> jsstring" where
  "substituteRuns P rep s = concat (map (\<lambda>c. if P c then rep else [c]) (runHeads P s))"

definition sanitizeAsAmended :: "jsstring \<Rightarrow> jsstring" where
  "sanitizeAsAmended nm =
     (let s = take 80 (trim (substituteRuns isSpace (lit '' '')
                               (substituteRuns isReserved (lit ''-'') nm)))
      in if s = [] then lit ''auragold'' else s)"

text \<open>A code unit that is neither reserved nor white space.\<close>

definition isPlain :: "16 word \<Rightarrow> bool" where
  "isPlain c \<longleftrightarrow> \<not> isReserved c \<and> \<not> isSpace c"

text \<open>
  A name spelled as alternating separators and plain text: every separator is a non-empty run
  of reserved characters or a non-empty run of white space, and the text after it is plain and
  not empty, so that every separator is a maximal run. \<open>spelled\<close> is the name as typed,
  \<open>rendered\<close> the same with a hyphen for every reserved run and a space for every run of
  white space, \<open>hyphenated\<close> the stage in between.
\<close>

definition separated :: "(jsstring \<times> jsstring) list \<Rightarrow> bool" where
  "separated segs \<longleftrightarrow>
     (\<forall>(r, p) \<in> set segs.
        r \<noteq> [] \<and> ((\<forall>c \<in> set r. isReserved c) \<or> (\<forall>c \<in> set r. isSpace c)) \<and>
        p \<noteq> [] \<and> (\<forall>c \<in> set p. isPlain c))"

definition spelled :: "(jsstring \<times> jsstring) list \<Rightarrow> jsstring" where
  "spelled segs = concat (map (\<lambda>(r, p). r @ p) segs)"

definition rendered :: "(jsstring \<times> jsstring) list \<Rightarrow> jsstring" where
  "rendered segs =
     concat (map (\<lambda>(r, p). (if isReserved (hd r) then lit ''-'' else lit '' '') @ p) segs)"

definition hyphenated :: "(jsstring \<times> jsstring) list \<Rightarrow> jsstring" where
  "hyphenated segs =
     concat (map (\<lambda>(r, p). (if isReserved (hd r) then [0x2D] else r) @ p) segs)"

text \<open>
  A record whose id is not empty and whose numbers are all finite, and a ledger that the
  export can carry: id and name not empty, \<open>createdAt\<close> finite, such records only and no
  record id twice.
\<close>

definition recordOk :: "TradeRecord \<Rightarrow> bool" where
  "recordOk r \<longleftrightarrow>
     rec_id r \<noteq> [] \<and> isFinite (grams r) \<and> isFinite (costPrice r) \<and>
     isFinite (sellingPrice r) \<and> isFinite (handlingFeeRate r) \<and> isFinite (actualProfit r) \<and>
     isFinite (desiredPrice r) \<and> isFinite (projectedProfit r) \<and> isFinite (profitMargin r) \<and>
     isFinite (timestamp r)"

definition exportable :: "Ledger \<Rightarrow> bool" where
  "exportable l \<longleftrightarrow>
     ledger_id l \<noteq> [] \<and> name l \<noteq> [] \<and> isFinite (createdAt l) \<and>
     (\<forall>r \<in> set (records l). recordOk r) \<and> distinct (map rec_id (records l))"

text \<open>The canonical order of the records of a ledger, and of the ledgers of a list.\<close>

definition sortedRecords :: "Ledger \<Rightarrow> Ledger" where
  "sortedRecords l = l\<lparr>records := arraySort byTimestampDesc (records l)\<rparr>"

definition createdAscending :: "Ledger list \<Rightarrow> bool" where
  "createdAscending ls \<longleftrightarrow> sorted_wrt (\<lambda>a b. num_le (createdAt a) (createdAt b)) ls"

text \<open>
  A ledger whose \<open>createdAt\<close> and record timestamps are finite, and a ledger whose records
  are in descending order of timestamp.
\<close>

definition finiteTimes :: "Ledger \<Rightarrow> bool" where
  "finiteTimes l \<longleftrightarrow> isFinite (createdAt l) \<and> (\<forall>r \<in> set (records l). isFinite (timestamp r))"

definition recordsDescending :: "Ledger \<Rightarrow> bool" where
  "recordsDescending l \<longleftrightarrow> sorted_wrt (\<lambda>a b. num_le (timestamp b) (timestamp a)) (records l)"

text \<open>
  Invariants of the map of a merge: the ledger stored under the id of \<open>x\<close> has every record
  id of \<open>x\<close> and its records are a fixed point of the sort; every stored ledger has finite
  times, or a finite \<open>createdAt\<close>.
\<close>

definition covered :: "Ledger \<Rightarrow> (jsstring \<times> Ledger) list \<Rightarrow> bool" where
  "covered x m \<longleftrightarrow>
     (\<exists>v. map_of m (ledger_id x) = Some v \<and>
          rec_id ` set (records x) \<subseteq> rec_id ` set (records v) \<and>
          arraySort byTimestampDesc (records v) = records v)"

definition finiteMap :: "(jsstring \<times> Ledger) list \<Rightarrow> bool" where
  "finiteMap m \<longleftrightarrow> (\<forall>p \<in> set m. finiteTimes (snd p))"

definition finiteCreated :: "(jsstring \<times> Ledger) list \<Rightarrow> bool" where
  "finiteCreated m \<longleftrightarrow> (\<forall>p \<in> set m. isFinite (createdAt (snd p)))"

section \<open>Sample data\<close>

text \<open>A well-formed trade record and a well-formed ledger, typed and as JSON.\<close>

definition sampleRecord :: "string \<Rightarrow> rat \<Rightarrow> TradeRecord" where
  "sampleRecord i t =
     \<lparr>rec_id = lit i, grams = Fin 1, costPrice = Fin 2, sellingPrice = Fin 3,
      handlingFeeRate = Fin 0, actualProfit = Fin 1, desiredPrice = Fin 3,
      projectedProfit = Fin 1, profitMargin = Fin 50, timestamp = Fin t\<rparr>"

definition sampleLedger :: "string \<Rightarrow> string \<Rightarrow> rat \<Rightarrow> TradeRecord list \<Rightarrow> Ledger" where
  "sampleLedger i n c rs = \<lparr>ledger_id = lit i, name = lit n, records = rs, createdAt = Fin c\<rparr>"

definition sampleRecordJson :: "string \<Rightarrow> rat \<Rightarrow> jsvalue" where
  "sampleRecordJson i t = recordToJson (sampleRecord i t)"

definition sampleLedgerJson :: "string \<Rightarrow> string \<Rightarrow> rat \<Rightarrow> jsvalue list \<Rightarrow> jsvalue" where
  "sampleLedgerJson i n c rs =
     JObj [(lit ''id'', JStr (lit i)), (lit ''name'', JStr (lit n)),
           (lit ''records'', JArr rs), (lit ''createdAt'', JNum (Fin c))]"

section \<open>String literals and property lookup\<close>

lemma codeUnit_inj:
  "(word_of_nat (of_char c) :: 16 word) = word_of_nat (of_char d) \<longleftrightarrow> c = d"
proof
  assume h: "(word_of_nat (of_char c) :: 16 word) = word_of_nat (of_char d)"
  have b: "(of_char x :: nat) < 2 ^ 16" for x
    by (rule less_trans [OF nat_of_char_less_256]) simp
  have "unat (word_of_nat (of_char c) :: 16 word) = unat (word_of_nat (of_char d) :: 16 word)"
    using h by simp
  then have "(of_char c :: nat) = of_char d"
    using b [of c] b [of d] by (simp add: unat_of_nat take_bit_nat_eq_self)
  then show "c = d" by simp
qed simp

lemma lit_eq_iff [simp]: "lit a = lit b \<longleftrightarrow> a = b"
  unfolding lit_def
  by (rule inj_map_eq_map) (simp add: inj_def codeUnit_inj)

lemma lit_Nil_iff [simp]: "lit s = [] \<longleftrightarrow> s = []"
  by (simp add: lit_def)

lemmas coerce_defs =
  asRecordObject_def asString_def asNumber_def isArray_def getProp_def missing_def Let_def

lemmas sample_defs =
  sampleRecord_def sampleLedger_def sampleRecordJson_def sampleLedgerJson_def
  recordToJson_def ledgerToJson_def numberToJson_def

section \<open>Fail-fast normalisation\<close>

lemma collectRecords_fails:
  "\<exists>item \<in> set raw. normalizeTradeRecord N item = None \<Longrightarrow>
     collectRecords N raw recs seen = None"
  by (induction raw arbitrary: recs seen) (auto split: option.splits)

lemma collectLedgers_fails:
  "\<exists>l \<in> set raws. normalizeLedger N l = None \<Longrightarrow> collectLedgers N raws acc = None"
  by (induction raws arbitrary: acc) (auto split: option.splits)

text \<open>
  Claim C4. A ledger object whose \<open>records\<close> array holds an element that fails record
  normalisation is refused as a whole, and an "all data" envelope whose \<open>payload.ledgers\<close>
  array holds an element that fails ledger normalisation is refused as a whole.
\<close>

theorem fail_fast:
  "(getProp obj (lit ''records'') = JArr raw \<and>
      (\<exists>item \<in> set raw. normalizeTradeRecord N item = None)
      \<longrightarrow> normalizeLedger N (JObj obj) = None) \<and>
   (getProp env (lit ''payload'') = JObj payload \<and>
      getProp payload (lit ''ledgers'') = JArr raws \<and>
      (\<exists>l \<in> set raws. normalizeLedger N l = None)
      \<longrightarrow> normalizeAllImport N (JObj env) = None)"
proof (intro conjI impI)
  assume h: "getProp obj (lit ''records'') = JArr raw \<and>
    (\<exists>item \<in> set raw. normalizeTradeRecord N item = None)"
  then have "collectRecords N raw [] {} = None"
    by (simp add: collectRecords_fails)
  with h show "normalizeLedger N (JObj obj) = None"
    by (simp add: normalizeLedger_def asRecordObject_def isArray_def Let_def)
next
  assume h: "getProp env (lit ''payload'') = JObj payload \<and>
    getProp payload (lit ''ledgers'') = JArr raws \<and>
    (\<exists>l \<in> set raws. normalizeLedger N l = None)"
  then have "collectLedgers N raws [] = None"
    by (simp add: collectLedgers_fails)
  with h show "normalizeAllImport N (JObj env) = None"
    by (simp add: normalizeAllImport_def asRecordObject_def isArray_def)
qed

theorem fail_fast_witness:
  "normalizeLedger (\<lambda>s. NaN)
     (sampleLedgerJson ''L1'' ''A'' 1000 [sampleRecordJson ''r1'' 100, JObj []]) = None \<and>
   normalizeAllImport (\<lambda>s. NaN)
     (JObj [(lit ''schema'', JStr (lit ''auragold.export'')), (lit ''kind'', JStr (lit ''all'')),
            (lit ''payload'',
               JObj [(lit ''ledgers'', JArr [sampleLedgerJson ''L1'' ''A'' 1000 [], JNull])])]) = None"
  using fail_fast [of
      "[(lit ''id'', JStr (lit ''L1'')), (lit ''name'', JStr (lit ''A'')),
        (lit ''records'', JArr [sampleRecordJson ''r1'' 100, JObj []]),
        (lit ''createdAt'', JNum (Fin 1000))]"
      "[sampleRecordJson ''r1'' 100, JObj []]" "\<lambda>s. NaN"
      "[(lit ''schema'', JStr (lit ''auragold.export'')), (lit ''kind'', JStr (lit ''all'')),
        (lit ''payload'',
           JObj [(lit ''ledgers'', JArr [sampleLedgerJson ''L1'' ''A'' 1000 [], JNull])])]"
      "[(lit ''ledgers'', JArr [sampleLedgerJson ''L1'' ''A'' 1000 [], JNull])]"
      "[sampleLedgerJson ''L1'' ''A'' 1000 [], JNull]"]
  by (simp add: normalizeTradeRecord_def normalizeLedger_def coerce_defs sample_defs)

text \<open>
  Claim C10. A record object whose \<open>id\<close> is the empty string is refused, and so is a ledger
  object whose \<open>id\<close> or \<open>name\<close> is the empty string.
\<close>

theorem empty_strings_rejected:
  "(getProp obj (lit ''id'') = JStr [] \<longrightarrow> normalizeTradeRecord N (JObj obj) = None) \<and>
   (getProp obj (lit ''id'') = JStr [] \<or> getProp obj (lit ''name'') = JStr []
      \<longrightarrow> normalizeLedger N (JObj obj) = None)"
  by (auto simp: normalizeTradeRecord_def normalizeLedger_def asRecordObject_def asString_def
      missing_def Let_def)

theorem empty_strings_rejected_witness:
  "normalizeTradeRecord (\<lambda>s. NaN) (recordToJson ((sampleRecord ''r1'' 100)\<lparr>rec_id := []\<rparr>)) = None \<and>
   normalizeLedger (\<lambda>s. NaN) (ledgerToJson ((sampleLedger ''L1'' ''A'' 1000 [])\<lparr>name := []\<rparr>)) = None"
  using empty_strings_rejected [of
      "[(lit ''id'', JStr []), (lit ''grams'', JNum (Fin 1)), (lit ''costPrice'', JNum (Fin 2)),
        (lit ''sellingPrice'', JNum (Fin 3)), (lit ''handlingFeeRate'', JNum (Fin 0)),
        (lit ''actualProfit'', JNum (Fin 1)), (lit ''desiredPrice'', JNum (Fin 3)),
        (lit ''projectedProfit'', JNum (Fin 1)), (lit ''profitMargin'', JNum (Fin 50)),
        (lit ''timestamp'', JNum (Fin 100))]" "\<lambda>s. NaN"]
    empty_strings_rejected [of
      "[(lit ''id'', JStr (lit ''L1'')), (lit ''name'', JStr []), (lit ''records'', JArr []),
        (lit ''createdAt'', JNum (Fin 1000))]" "\<lambda>s. NaN"]
  by (simp add: sample_defs getProp_def)

section \<open>The legacy bare array\<close>

text \<open>
  Claim C1. A bare array of two valid ledger objects: each element is accepted by
  \<open>normalizeLedger\<close>, yet \<open>normalizeAllImport\<close> returns \<open>null\<close> for the array, because
  \<open>asRecordObject\<close> refuses every array before the fallback branch is reached.
\<close>

theorem bare_array_rejected:
  "normalizeLedger N (sampleLedgerJson ''L1'' ''A'' 1000 []) = Some (sampleLedger ''L1'' ''A'' 1000 []) \<and>
   normalizeLedger N (sampleLedgerJson ''L2'' ''B'' 2000 []) = Some (sampleLedger ''L2'' ''B'' 2000 []) \<and>
   normalizeAllImport N
     (JArr [sampleLedgerJson ''L1'' ''A'' 1000 [], sampleLedgerJson ''L2'' ''B'' 2000 []]) = None"
  by (simp add: normalizeLedger_def normalizeAllImport_def coerce_defs sample_defs arraySort_def)

section \<open>Facts about the sort\<close>

lemma isFinite_iff: "isFinite n \<longleftrightarrow> (\<exists>x. n = Fin x)"
  by (cases n) simp_all

lemma set_insertSorted [simp]: "set (insertSorted cmp x ys) = insert x (set ys)"
  by (induction ys) auto

lemma set_arraySort [simp]: "set (arraySort cmp xs) = set xs"
  by (induction xs) (simp_all add: arraySort_def)

lemma length_insertSorted [simp]: "length (insertSorted cmp x ys) = Suc (length ys)"
  by (induction ys) auto

lemma length_arraySort [simp]: "length (arraySort cmp xs) = length xs"
  by (induction xs) (simp_all add: arraySort_def)

lemma arraySort_Nil [simp]: "arraySort cmp [] = []"
  by (simp add: arraySort_def)

lemma arraySort_Cons: "arraySort cmp (x # xs) = insertSorted cmp x (arraySort cmp xs)"
  by (simp add: arraySort_def)

lemma insertSorted_desc:
  "isFinite (k x) \<Longrightarrow> \<forall>y \<in> set ys. isFinite (k y) \<Longrightarrow>
     insertSorted (\<lambda>a b. num_sub (k b) (k a)) x ys = insort_key (\<lambda>r. - finVal (k r)) x ys"
  by (induction ys) (auto simp: isFinite_iff)

lemma insertSorted_asc:
  "isFinite (k x) \<Longrightarrow> \<forall>y \<in> set ys. isFinite (k y) \<Longrightarrow>
     insertSorted (\<lambda>a b. num_sub (k a) (k b)) x ys = insort_key (\<lambda>r. finVal (k r)) x ys"
  by (induction ys) (auto simp: isFinite_iff)

lemma arraySort_desc:
  "\<forall>x \<in> set xs. isFinite (k x) \<Longrightarrow>
     arraySort (\<lambda>a b. num_sub (k b) (k a)) xs = sort_key (\<lambda>r. - finVal (k r)) xs"
proof (induction xs)
  case Nil
  show ?case by simp
next
  case (Cons x xs)
  have "arraySort (\<lambda>a b. num_sub (k b) (k a)) (x # xs)
      = insertSorted (\<lambda>a b. num_sub (k b) (k a)) x (sort_key (\<lambda>r. - finVal (k r)) xs)"
    using Cons by (simp add: arraySort_Cons)
  also have "\<dots> = insort_key (\<lambda>r. - finVal (k r)) x (sort_key (\<lambda>r. - finVal (k r)) xs)"
    using Cons.prems by (intro insertSorted_desc) simp_all
  finally show ?case by simp
qed

lemma arraySort_asc:
  "\<forall>x \<in> set xs. isFinite (k x) \<Longrightarrow>
     arraySort (\<lambda>a b. num_sub (k a) (k b)) xs = sort_key (\<lambda>r. finVal (k r)) xs"
proof (induction xs)
  case Nil
  show ?case by simp
next
  case (Cons x xs)
  have "arraySort (\<lambda>a b. num_sub (k a) (k b)) (x # xs)
      = insertSorted (\<lambda>a b. num_sub (k a) (k b)) x (sort_key (\<lambda>r. finVal (k r)) xs)"
    using Cons by (simp add: arraySort_Cons)
  also have "\<dots> = insort_key (\<lambda>r. finVal (k r)) x (sort_key (\<lambda>r. finVal (k r)) xs)"
    using Cons.prems by (intro insertSorted_asc) simp_all
  finally show ?case by simp
qed

lemma sortRecords_sort_key:
  "\<forall>r \<in> set rs. isFinite (timestamp r) \<Longrightarrow>
     arraySort byTimestampDesc rs = sort_key (\<lambda>r. - finVal (timestamp r)) rs"
  using arraySort_desc [of rs timestamp] by (simp add: byTimestampDesc_def [abs_def])

lemma sortLedgers_sort_key:
  "\<forall>l \<in> set ls. isFinite (createdAt l) \<Longrightarrow>
     arraySort byCreatedAtAsc ls = sort_key (\<lambda>l. finVal (createdAt l)) ls"
  using arraySort_asc [of ls createdAt] by (simp add: byCreatedAtAsc_def [abs_def])

lemma num_le_finite: "isFinite a \<Longrightarrow> isFinite b \<Longrightarrow> num_le a b \<longleftrightarrow> finVal a \<le> finVal b"
  by (auto simp: isFinite_iff)

lemma desc_sorted_iff:
  "\<forall>x \<in> set xs. isFinite (k x) \<Longrightarrow>
     sorted_wrt (\<lambda>a b. num_le (k b) (k a)) xs \<longleftrightarrow> sorted (map (\<lambda>r. - finVal (k r)) xs)"
  unfolding sorted_map
  by (rule iffI; erule sorted_wrt_mono_rel [rotated]) (simp_all add: num_le_finite)

lemma asc_sorted_iff:
  "\<forall>x \<in> set xs. isFinite (k x) \<Longrightarrow>
     sorted_wrt (\<lambda>a b. num_le (k a) (k b)) xs \<longleftrightarrow> sorted (map (\<lambda>r. finVal (k r)) xs)"
  unfolding sorted_map
  by (rule iffI; erule sorted_wrt_mono_rel [rotated]) (simp_all add: num_le_finite)

section \<open>Deduplication and ordering of the records of a ledger\<close>

lemma normalizedRecords_simps [simp]:
  "normalizedRecords N [] = []"
  "normalizedRecords N (item # rest) = the (normalizeTradeRecord N item) # normalizedRecords N rest"
  by (simp_all add: normalizedRecords_def)

lemma asNumber_finite: "asNumber N v = Some n \<Longrightarrow> isFinite n"
  by (auto simp: asNumber_def Let_def split: jsvalue.splits if_splits)

lemma normalizeTradeRecord_timestamp:
  "normalizeTradeRecord N v = Some r \<Longrightarrow> isFinite (timestamp r)"
  by (auto simp: normalizeTradeRecord_def Let_def asNumber_finite split: option.splits if_splits)

lemma filter_id_firstOccurrences:
  "filter (\<lambda>r. rec_id r = k) (firstOccurrences ns) =
     (case find (\<lambda>r. rec_id r = k) ns of None \<Rightarrow> [] | Some r \<Rightarrow> [r])"
proof (induction ns)
  case Nil
  show ?case by simp
next
  case (Cons n ns)
  show ?case
  proof (cases "rec_id n = k")
    case True
    then have "filter (\<lambda>r. rec_id r = k) (filter (\<lambda>x. rec_id x \<noteq> rec_id n) (firstOccurrences ns)) = []"
      by (simp add: filter_empty_conv)
    with True show ?thesis by simp
  next
    case False
    then have "filter (\<lambda>r. rec_id r = k) (filter (\<lambda>x. rec_id x \<noteq> rec_id n) (firstOccurrences ns))
        = filter (\<lambda>r. rec_id r = k) (firstOccurrences ns)"
      by (auto intro: filter_cong)
    with False Cons show ?thesis by simp
  qed
qed

lemma set_firstOccurrences: "set (firstOccurrences ns) \<subseteq> set ns"
  by (induction ns) auto

lemma collectRecords_all:
  "collectRecords N raw recs seen = Some out \<Longrightarrow> \<forall>item \<in> set raw. normalizeTradeRecord N item \<noteq> None"
  by (induction raw arbitrary: recs seen) (auto split: option.splits if_splits)

lemma collectRecords_eq:
  "\<forall>item \<in> set raw. normalizeTradeRecord N item \<noteq> None \<Longrightarrow>
     collectRecords N raw recs seen =
       Some (recs @ filter (\<lambda>r. rec_id r \<notin> seen)
                      (firstOccurrences (normalizedRecords N raw)))"
proof (induction raw arbitrary: recs seen)
  case Nil
  show ?case by simp
next
  case (Cons item rest)
  then obtain r where r: "normalizeTradeRecord N item = Some r" by auto
  let ?fo = "firstOccurrences (normalizedRecords N rest)"
  show ?case
  proof (cases "rec_id r \<in> seen")
    case True
    have "filter (\<lambda>x. rec_id x \<notin> seen) (filter (\<lambda>x. rec_id x \<noteq> rec_id r) ?fo)
        = filter (\<lambda>x. rec_id x \<notin> seen) ?fo"
      unfolding filter_filter using True by (auto intro: filter_cong)
    with True r Cons show ?thesis by simp
  next
    case False
    have "filter (\<lambda>x. rec_id x \<notin> seen) (filter (\<lambda>x. rec_id x \<noteq> rec_id r) ?fo)
        = filter (\<lambda>x. rec_id x \<notin> insert (rec_id r) seen) ?fo"
      unfolding filter_filter by (auto intro: filter_cong)
    with False r Cons show ?thesis by simp
  qed
qed

lemma normalizeLedger_records:
  assumes "normalizeLedger N (JObj obj) = Some L"
    and "getProp obj (lit ''records'') = JArr raw"
  shows "(\<forall>item \<in> set raw. normalizeTradeRecord N item \<noteq> None) \<and>
    records L = arraySort byTimestampDesc
                  (firstOccurrences (normalizedRecords N raw))"
proof -
  from assms obtain recs where c: "collectRecords N raw [] {} = Some recs"
    and L: "records L = arraySort byTimestampDesc recs"
    by (auto simp: normalizeLedger_def asRecordObject_def isArray_def Let_def
        split: if_splits option.splits)
  from c have a: "\<forall>item \<in> set raw. normalizeTradeRecord N item \<noteq> None"
    by (rule collectRecords_all)
  from collectRecords_eq [OF a, of "[]" "{}"] c
  have "recs = firstOccurrences (normalizedRecords N raw)" by simp
  with a L show ?thesis by simp
qed

lemma normalized_finite:
  "\<forall>item \<in> set raw. normalizeTradeRecord N item \<noteq> None \<Longrightarrow>
     \<forall>r \<in> set (normalizedRecords N raw). isFinite (timestamp r)"
  by (induction raw) (auto dest: normalizeTradeRecord_timestamp)

lemma firstOccurrences_finite:
  "\<forall>item \<in> set raw. normalizeTradeRecord N item \<noteq> None \<Longrightarrow>
     \<forall>r \<in> set (firstOccurrences (normalizedRecords N raw)). isFinite (timestamp r)"
  using normalized_finite [of raw N] set_firstOccurrences by blast

text \<open>
  Claim C7. When a ledger object is accepted, every element of its \<open>records\<close> array
  normalises, and for every id the accepted ledger holds exactly the first record of the
  array with that id (and none if the array has no record with that id): later records with
  the same id are discarded.
\<close>

theorem dedup_keeps_first:
  assumes "normalizeLedger N (JObj obj) = Some L"
    and "getProp obj (lit ''records'') = JArr raw"
  shows "(\<forall>item \<in> set raw. normalizeTradeRecord N item \<noteq> None) \<and>
    filter (\<lambda>r. rec_id r = k) (records L) =
      (case find (\<lambda>r. rec_id r = k) (normalizedRecords N raw) of
         None \<Rightarrow> [] | Some r \<Rightarrow> [r])"
proof -
  let ?ns = "normalizedRecords N raw"
  from normalizeLedger_records [OF assms]
  have a: "\<forall>item \<in> set raw. normalizeTradeRecord N item \<noteq> None"
    and L: "records L = arraySort byTimestampDesc (firstOccurrences ?ns)" by simp_all
  have fin: "\<forall>r \<in> set (firstOccurrences ?ns). isFinite (timestamp r)"
    using a by (rule firstOccurrences_finite)
  have "filter (\<lambda>r. rec_id r = k) (records L)
      = sort_key (\<lambda>r. - finVal (timestamp r)) (filter (\<lambda>r. rec_id r = k) (firstOccurrences ?ns))"
    by (simp add: L sortRecords_sort_key [OF fin] filter_sort)
  also have "\<dots> = (case find (\<lambda>r. rec_id r = k) ?ns of None \<Rightarrow> [] | Some r \<Rightarrow> [r])"
    by (simp add: filter_id_firstOccurrences split: option.splits)
  finally show ?thesis using a by simp
qed

theorem dedup_keeps_first_witness:
  "normalizeLedger (\<lambda>s. NaN)
     (JObj [(lit ''id'', JStr (lit ''L1'')), (lit ''name'', JStr (lit ''A'')),
            (lit ''records'', JArr [sampleRecordJson ''r1'' 100, sampleRecordJson ''r1'' 200,
                                    sampleRecordJson ''r2'' 300]),
            (lit ''createdAt'', JNum (Fin 1000))])
     = Some (sampleLedger ''L1'' ''A'' 1000 [sampleRecord ''r2'' 300, sampleRecord ''r1'' 100]) \<and>
   filter (\<lambda>r. rec_id r = lit ''r1'')
     (records (sampleLedger ''L1'' ''A'' 1000 [sampleRecord ''r2'' 300, sampleRecord ''r1'' 100]))
     = [sampleRecord ''r1'' 100]"
proof -
  let ?raw = "[sampleRecordJson ''r1'' 100, sampleRecordJson ''r1'' 200, sampleRecordJson ''r2'' 300]"
  let ?obj = "[(lit ''id'', JStr (lit ''L1'')), (lit ''name'', JStr (lit ''A'')),
               (lit ''records'', JArr ?raw), (lit ''createdAt'', JNum (Fin 1000))]"
  let ?L = "sampleLedger ''L1'' ''A'' 1000 [sampleRecord ''r2'' 300, sampleRecord ''r1'' 100]"
  have h1: "normalizeLedger (\<lambda>s. NaN) (JObj ?obj) = Some ?L"
    by (simp add: normalizeLedger_def normalizeTradeRecord_def coerce_defs sample_defs
        arraySort_def byTimestampDesc_def)
  have h2: "getProp ?obj (lit ''records'') = JArr ?raw"
    by (simp add: getProp_def)
  from dedup_keeps_first [OF h1 h2, of "lit ''r1''"] h1 show ?thesis
    by (simp add: normalizedRecords_def normalizeTradeRecord_def coerce_defs sample_defs)
qed

text \<open>
  Claim C8. The records of an accepted ledger are in descending order of timestamp, and the
  records of any one timestamp stand in the order in which the array had them (after the
  later duplicates of an id were dropped).
\<close>

theorem sorted_desc_stable:
  assumes "normalizeLedger N (JObj obj) = Some L"
    and "getProp obj (lit ''records'') = JArr raw"
  shows "sorted_wrt (\<lambda>a b. num_le (timestamp b) (timestamp a)) (records L) \<and>
    (\<forall>t. filter (\<lambda>r. timestamp r = t) (records L) =
         filter (\<lambda>r. timestamp r = t)
           (firstOccurrences (normalizedRecords N raw)))"
proof -
  let ?ns = "normalizedRecords N raw"
  let ?f = "\<lambda>r. - finVal (timestamp r)"
  from normalizeLedger_records [OF assms]
  have a: "\<forall>item \<in> set raw. normalizeTradeRecord N item \<noteq> None"
    and L: "records L = arraySort byTimestampDesc (firstOccurrences ?ns)" by simp_all
  have fin: "\<forall>r \<in> set (firstOccurrences ?ns). isFinite (timestamp r)"
    using a by (rule firstOccurrences_finite)
  have L': "records L = sort_key ?f (firstOccurrences ?ns)"
    by (simp add: L sortRecords_sort_key [OF fin])
  have finL: "\<forall>r \<in> set (records L). isFinite (timestamp r)"
    using fin by (simp add: L')
  have "sorted (map ?f (records L))" by (simp add: L')
  then have s: "sorted_wrt (\<lambda>a b. num_le (timestamp b) (timestamp a)) (records L)"
    using desc_sorted_iff [OF finL] by simp
  have st: "filter (\<lambda>r. timestamp r = t) (records L)
      = filter (\<lambda>r. timestamp r = t) (firstOccurrences ?ns)" for t
  proof -
    have e: "\<forall>r \<in> set xs. isFinite (timestamp r) \<Longrightarrow>
        filter (\<lambda>r. timestamp r = t) xs
          = (if isFinite t then filter (\<lambda>r. ?f r = - finVal t) xs else [])" for xs
      by (induction xs) (auto simp: isFinite_iff)
    have "filter (\<lambda>r. timestamp r = t) (records L)
        = (if isFinite t then filter (\<lambda>r. ?f r = - finVal t) (records L) else [])"
      by (rule e [OF finL])
    also have "\<dots> = (if isFinite t
        then filter (\<lambda>r. ?f r = - finVal t) (firstOccurrences ?ns) else [])"
      unfolding L' sort_key_stable [of ?f] ..
    also have "\<dots> = filter (\<lambda>r. timestamp r = t) (firstOccurrences ?ns)"
      by (rule e [OF fin, symmetric])
    finally show ?thesis .
  qed
  from s st show ?thesis by blast
qed

theorem sorted_desc_stable_witness:
  "normalizeLedger (\<lambda>s. NaN)
     (JObj [(lit ''id'', JStr (lit ''L1'')), (lit ''name'', JStr (lit ''A'')),
            (lit ''records'', JArr [sampleRecordJson ''r1'' 100, sampleRecordJson ''r2'' 300,
                                    sampleRecordJson ''r3'' 300]),
            (lit ''createdAt'', JNum (Fin 1000))])
     = Some (sampleLedger ''L1'' ''A'' 1000
               [sampleRecord ''r2'' 300, sampleRecord ''r3'' 300, sampleRecord ''r1'' 100]) \<and>
   sorted_wrt (\<lambda>a b. num_le (timestamp b) (timestamp a))
     [sampleRecord ''r2'' 300, sampleRecord ''r3'' 300, sampleRecord ''r1'' 100] \<and>
   filter (\<lambda>r. timestamp r = Fin 300)
     [sampleRecord ''r2'' 300, sampleRecord ''r3'' 300, sampleRecord ''r1'' 100]
     = [sampleRecord ''r2'' 300, sampleRecord ''r3'' 300]"
proof -
  let ?raw = "[sampleRecordJson ''r1'' 100, sampleRecordJson ''r2'' 300, sampleRecordJson ''r3'' 300]"
  let ?obj = "[(lit ''id'', JStr (lit ''L1'')), (lit ''name'', JStr (lit ''A'')),
               (lit ''records'', JArr ?raw), (lit ''createdAt'', JNum (Fin 1000))]"
  let ?L = "sampleLedger ''L1'' ''A'' 1000
              [sampleRecord ''r2'' 300, sampleRecord ''r3'' 300, sampleRecord ''r1'' 100]"
  have h1: "normalizeLedger (\<lambda>s. NaN) (JObj ?obj) = Some ?L"
    by (simp add: normalizeLedger_def normalizeTradeRecord_def coerce_defs sample_defs
        arraySort_def byTimestampDesc_def)
  have h2: "getProp ?obj (lit ''records'') = JArr ?raw"
    by (simp add: getProp_def)
  from sorted_desc_stable [OF h1 h2] h1 show ?thesis
    by (simp add: normalizedRecords_def normalizeTradeRecord_def coerce_defs sample_defs)
qed

section \<open>The maps of the merges\<close>

lemma map_of_mapSet [simp]: "map_of (mapSet k v m) = (map_of m)(k \<mapsto> v)"
  by (induction m) (auto simp: fun_eq_iff)

lemma keys_mapSet:
  "map fst (mapSet k v m) = (if k \<in> fst ` set m then map fst m else map fst m @ [k])"
  by (induction m) auto

lemma set_mapSet_subset: "set (mapSet k v m) \<subseteq> insert (k, v) (set m)"
  by (induction m) auto

lemma distinct_mapSet: "distinct (map fst m) \<Longrightarrow> distinct (map fst (mapSet k v m))"
  by (simp add: keys_mapSet)

lemma keyed_Nil [simp]: "keyed []"
  by (simp add: keyed_def)

lemma keyed_mapSet: "keyed m \<Longrightarrow> ledger_id v = k \<Longrightarrow> keyed (mapSet k v m)"
  unfolding keyed_def using set_mapSet_subset [of k v m] by (auto simp: distinct_mapSet)

lemma keyed_lookup: "keyed m \<Longrightarrow> map_of m k = Some v \<Longrightarrow> ledger_id v = k"
  by (auto simp: keyed_def dest: map_of_SomeD)

lemma keyed_seedStep: "keyed m \<Longrightarrow> keyed (seedStep l m)"
  by (simp add: seedStep_def keyed_mapSet)

lemma keyed_mergeStep: "keyed m \<Longrightarrow> keyed (mergeStep l m)"
  by (auto simp: mergeStep_def keyed_mapSet keyed_lookup split: option.splits)

lemma keyed_dedupeStep: "keyed m \<Longrightarrow> keyed (dedupeStep l m)"
  by (auto simp: dedupeStep_def keyed_mapSet keyed_lookup split: option.splits)

lemma keyed_fold_seedStep: "keyed m \<Longrightarrow> keyed (fold seedStep ls m)"
  by (induction ls arbitrary: m) (simp_all add: keyed_seedStep)

lemma keyed_fold_mergeStep: "keyed m \<Longrightarrow> keyed (fold mergeStep ls m)"
  by (induction ls arbitrary: m) (simp_all add: keyed_mergeStep)

lemma keyed_fold_dedupeStep: "keyed m \<Longrightarrow> keyed (fold dedupeStep ls m)"
  by (induction ls arbitrary: m) (simp_all add: keyed_dedupeStep)

lemma keyed_values: "keyed m \<Longrightarrow> map ledger_id (mapValues m) = map fst m"
  by (simp add: keyed_def mapValues_def)

lemma distinct_map_insertSorted:
  "distinct (map f (insertSorted cmp x ys)) \<longleftrightarrow> f x \<notin> f ` set ys \<and> distinct (map f ys)"
  by (induction ys) auto

lemma distinct_map_arraySort [simp]:
  "distinct (map f (arraySort cmp xs)) \<longleftrightarrow> distinct (map f xs)"
  by (induction xs) (simp_all add: arraySort_Cons distinct_map_insertSorted)

lemma distinct_ids_mergeLedgers: "distinct (map ledger_id (mergeLedgers current incoming))"
proof -
  have "keyed (fold mergeStep incoming (fold seedStep current []))"
    by (simp add: keyed_fold_mergeStep keyed_fold_seedStep)
  then show ?thesis
    by (simp add: mergeLedgers_def keyed_values) (simp add: keyed_def)
qed

lemma distinct_ids_dedupeLedgersById: "distinct (map ledger_id (dedupeLedgersById ls))"
proof -
  have "keyed (fold dedupeStep ls [])"
    by (simp add: keyed_fold_dedupeStep)
  then show ?thesis
    by (simp add: dedupeLedgersById_def keyed_values) (simp add: keyed_def)
qed

lemma set_mergedRecords:
  "set (mergedRecords prev inc) = set prev \<union> {r \<in> set inc. rec_id r \<notin> rec_id ` set prev}"
  by (auto simp: mergedRecords_def Let_def)

lemma ids_mergedRecords:
  "rec_id ` set (mergedRecords prev inc) = rec_id ` set prev \<union> rec_id ` set inc"
  by (auto simp: set_mergedRecords)

lemma map_of_seedStep: "map_of (seedStep l m) = (map_of m)(ledger_id l \<mapsto> l)"
  by (simp add: seedStep_def)

lemma seed_other:
  "k \<notin> ledger_id ` set ls \<Longrightarrow> map_of (fold seedStep ls m) k = map_of m k"
  by (induction ls arbitrary: m) (auto simp: map_of_seedStep)

lemma seed_lookup:
  "distinct (map ledger_id ls) \<Longrightarrow> l \<in> set ls \<Longrightarrow>
     map_of (fold seedStep ls m) (ledger_id l) = Some l"
proof (induction ls arbitrary: m)
  case Nil
  then show ?case by simp
next
  case (Cons x xs)
  show ?case
  proof (cases "l \<in> set xs")
    case True
    with Cons show ?thesis by simp
  next
    case False
    with Cons.prems have "l = x" and "ledger_id l \<notin> ledger_id ` set xs" by auto
    then show ?thesis by (simp add: seed_other map_of_seedStep)
  qed
qed

lemma holds_mergeStep: "keyed m \<Longrightarrow> holds k r m \<Longrightarrow> holds k r (mergeStep l m)"
  by (auto simp: holds_def mergeStep_def set_mergedRecords keyed_lookup split: option.splits)

lemma holds_fold_mergeStep:
  "keyed m \<Longrightarrow> holds k r m \<Longrightarrow> holds k r (fold mergeStep ls m)"
  by (induction ls arbitrary: m) (simp_all add: holds_mergeStep keyed_mergeStep)

lemma holdsId_dedupeStep: "keyed m \<Longrightarrow> holdsId k i m \<Longrightarrow> holdsId k i (dedupeStep l m)"
  by (auto simp: holdsId_def dedupeStep_def ids_mergedRecords keyed_lookup split: option.splits)

lemma holdsId_dedupeStep_new:
  "keyed m \<Longrightarrow> r \<in> set (records l) \<Longrightarrow> holdsId (ledger_id l) (rec_id r) (dedupeStep l m)"
  by (auto simp: holdsId_def dedupeStep_def ids_mergedRecords keyed_lookup split: option.splits)

lemma holdsId_fold_dedupeStep:
  "keyed m \<Longrightarrow> holdsId k i m \<Longrightarrow> holdsId k i (fold dedupeStep ls m)"
  by (induction ls arbitrary: m) (simp_all add: holdsId_dedupeStep keyed_dedupeStep)

lemma holdsId_fold_dedupeStep_new:
  "keyed m \<Longrightarrow> l \<in> set ls \<Longrightarrow> r \<in> set (records l) \<Longrightarrow>
     holdsId (ledger_id l) (rec_id r) (fold dedupeStep ls m)"
proof (induction ls arbitrary: m)
  case Nil
  then show ?case by simp
next
  case (Cons x xs)
  show ?case
  proof (cases "l = x")
    case True
    with Cons.prems show ?thesis
      by (simp add: holdsId_fold_dedupeStep holdsId_dedupeStep_new keyed_dedupeStep)
  next
    case False
    with Cons show ?thesis by (simp add: keyed_dedupeStep)
  qed
qed

lemma lookup_in_values: "map_of m k = Some v \<Longrightarrow> v \<in> set (mapValues m)"
  by (auto simp: mapValues_def dest: map_of_SomeD intro: rev_image_eqI)

text \<open>
  Claim C6. With the existing ledgers of distinct ids, every record of an existing ledger is a
  record of the ledger of the same id in \<open>mergeLedgers existing incoming\<close>. In
  \<open>dedupeLedgersById\<close> every record id of an input ledger is a record id of the merged
  ledger of the same id. Both results have one ledger per id.
\<close>

theorem merge_never_removes:
  assumes "l \<in> set existing" and "r \<in> set (records l)"
  shows "(distinct (map ledger_id existing) \<longrightarrow>
           (\<exists>m \<in> set (mergeLedgers existing incoming).
              ledger_id m = ledger_id l \<and> r \<in> set (records m))) \<and>
         (\<exists>m \<in> set (dedupeLedgersById (existing @ incoming)).
              ledger_id m = ledger_id l \<and> rec_id r \<in> rec_id ` set (records m)) \<and>
         distinct (map ledger_id (mergeLedgers existing incoming)) \<and>
         distinct (map ledger_id (dedupeLedgersById (existing @ incoming)))"
proof (intro conjI impI)
  assume d: "distinct (map ledger_id existing)"
  let ?seeded = "fold seedStep existing []"
  let ?m = "fold mergeStep incoming ?seeded"
  have k0: "keyed ?seeded" by (simp add: keyed_fold_seedStep)
  have k: "keyed ?m" by (simp add: keyed_fold_mergeStep k0)
  have "holds (ledger_id l) r ?seeded"
    using seed_lookup [OF d assms(1), of "[]"] assms(2) by (simp add: holds_def)
  then have "holds (ledger_id l) r ?m" by (rule holds_fold_mergeStep [OF k0])
  then obtain v where v: "map_of ?m (ledger_id l) = Some v" "r \<in> set (records v)"
    by (auto simp: holds_def)
  have "v \<in> set (mergeLedgers existing incoming)"
    using lookup_in_values [OF v(1)] by (simp add: mergeLedgers_def)
  moreover have "ledger_id v = ledger_id l" using keyed_lookup [OF k v(1)] .
  ultimately show "\<exists>m \<in> set (mergeLedgers existing incoming).
      ledger_id m = ledger_id l \<and> r \<in> set (records m)"
    using v(2) by blast
next
  let ?m = "fold dedupeStep (existing @ incoming) []"
  have k: "keyed ?m" by (simp add: keyed_fold_dedupeStep)
  have "holdsId (ledger_id l) (rec_id r) ?m"
    using assms by (intro holdsId_fold_dedupeStep_new) simp_all
  then obtain v where v: "map_of ?m (ledger_id l) = Some v" "rec_id r \<in> rec_id ` set (records v)"
    by (auto simp: holdsId_def)
  have "v \<in> set (dedupeLedgersById (existing @ incoming))"
    using lookup_in_values [OF v(1)] by (simp add: dedupeLedgersById_def)
  moreover have "ledger_id v = ledger_id l" using keyed_lookup [OF k v(1)] .
  ultimately show "\<exists>m \<in> set (dedupeLedgersById (existing @ incoming)).
      ledger_id m = ledger_id l \<and> rec_id r \<in> rec_id ` set (records m)"
    using v(2) by blast
next
  show "distinct (map ledger_id (mergeLedgers existing incoming))"
    by (rule distinct_ids_mergeLedgers)
next
  show "distinct (map ledger_id (dedupeLedgersById (existing @ incoming)))"
    by (rule distinct_ids_dedupeLedgersById)
qed

theorem merge_never_removes_witness:
  "distinct (map ledger_id [sampleLedger ''L1'' ''A'' 1000 [sampleRecord ''r1'' 10]]) \<and>
   (\<exists>m \<in> set (mergeLedgers
                  [sampleLedger ''L1'' ''A'' 1000 [sampleRecord ''r1'' 10]]
                  [sampleLedger ''L1'' ''B'' 500 [sampleRecord ''r2'' 20]]).
      ledger_id m = ledger_id (sampleLedger ''L1'' ''A'' 1000 [sampleRecord ''r1'' 10]) \<and>
      sampleRecord ''r1'' 10 \<in> set (records m))"
proof -
  let ?l = "sampleLedger ''L1'' ''A'' 1000 [sampleRecord ''r1'' 10]"
  have h1: "?l \<in> set [?l]" by simp
  have h2: "sampleRecord ''r1'' 10 \<in> set (records ?l)" by (simp add: sampleLedger_def)
  have h3: "distinct (map ledger_id [?l])" by simp
  from merge_never_removes [OF h1 h2, of "[sampleLedger ''L1'' ''B'' 500 [sampleRecord ''r2'' 20]]"] h3
  show ?thesis by blast
qed

text \<open>
  Claim C2. The example of the specification: the existing ledger \<open>L1\<close> named \<open>A\<close>,
  created at 1000, and the incoming ledger \<open>L1\<close> named \<open>B\<close>, created at 500.
  \<open>dedupeLedgersById\<close> gives the merged ledger the incoming name and the smaller
  \<open>createdAt\<close>; \<open>mergeLedgers\<close> merges the records alike but keeps the name and
  the \<open>createdAt\<close> of the existing ledger.
\<close>

theorem merge_conflict_example:
  "mergeLedgers
     [sampleLedger ''L1'' ''A'' 1000 [sampleRecord ''r1'' 10]]
     [sampleLedger ''L1'' ''B'' 500 [sampleRecord ''r1'' 10, sampleRecord ''r2'' 20]]
   = [sampleLedger ''L1'' ''A'' 1000 [sampleRecord ''r2'' 20, sampleRecord ''r1'' 10]] \<and>
   dedupeLedgersById
     [sampleLedger ''L1'' ''A'' 1000 [sampleRecord ''r1'' 10],
      sampleLedger ''L1'' ''B'' 500 [sampleRecord ''r1'' 10, sampleRecord ''r2'' 20]]
   = [sampleLedger ''L1'' ''B'' 500 [sampleRecord ''r2'' 20, sampleRecord ''r1'' 10]]"
  by (simp add: mergeLedgers_def dedupeLedgersById_def mergeStep_def seedStep_def dedupeStep_def
      mergedRecords_def mapValues_def arraySort_def byTimestampDesc_def byCreatedAtAsc_def
      sample_defs)

section \<open>The file name sanitiser\<close>

lemma replaceRuns_clean: "\<forall>c \<in> set s. \<not> P c \<Longrightarrow> replaceRuns P rep s = s"
  by (induction s) simp_all

lemma replaceRuns_clean_prefix:
  "\<forall>c \<in> set a. \<not> P c \<Longrightarrow> replaceRuns P rep (a @ b) = a @ replaceRuns P rep b"
  by (induction a) simp_all

lemma replaceRuns_run:
  assumes "run \<noteq> []" and "\<forall>c \<in> set run. P c" and "b = [] \<or> \<not> P (hd b)"
  shows "replaceRuns P rep (run @ b) = rep @ replaceRuns P rep b"
proof -
  from assms(1) obtain c cs where run: "run = c # cs" by (cases run) auto
  have "dropWhile P (cs @ b) = dropWhile P b"
    using assms(2) by (simp add: run dropWhile_append2)
  also have "\<dots> = b" using assms(3) by (cases b) auto
  finally show ?thesis using assms(2) by (simp add: run)
qed

lemma set_replaceRuns:
  "set (replaceRuns P rep s) \<subseteq> set rep \<union> {c \<in> set s. \<not> P c}"
proof (induction P rep s rule: replaceRuns.induct)
  case (1 P rep)
  show ?case by simp
next
  case (2 P rep c cs)
  show ?case
  proof (cases "P c")
    case True
    with 2 have "set (replaceRuns P rep (dropWhile P cs)) \<subseteq> set rep \<union> {c \<in> set (dropWhile P cs). \<not> P c}"
      by simp
    then show ?thesis using True set_dropWhileD [of _ P cs] by auto
  next
    case False
    with 2 show ?thesis by auto
  qed
qed

lemma set_trim: "set (trim s) \<subseteq> set s"
  by (auto simp: trim_def dest!: set_dropWhileD)

lemma trim_strip:
  assumes "\<forall>c \<in> set sp1. isSpace c" and "\<forall>c \<in> set sp2. isSpace c"
    and "a = [] \<or> (\<not> isSpace (hd a) \<and> \<not> isSpace (last a))"
  shows "trim (sp1 @ a @ sp2) = a"
proof (cases "a = []")
  case True
  then have e: "dropWhile isSpace (sp1 @ a @ sp2) = []"
    using assms(1,2) by (auto simp: dropWhile_eq_Nil_conv dest: set_dropWhileD)
  show ?thesis unfolding trim_def e using True by simp
next
  case False
  with assms(3) have h: "\<not> isSpace (hd a)" and l: "\<not> isSpace (last a)" by simp_all
  have "dropWhile isSpace (sp1 @ a @ sp2) = dropWhile isSpace (a @ sp2)"
    using assms(1) by (simp add: dropWhile_append2)
  also have "\<dots> = a @ sp2" using False h by (cases a) simp_all
  finally have 1: "dropWhile isSpace (sp1 @ a @ sp2) = a @ sp2" .
  have "dropWhile isSpace (rev (a @ sp2)) = dropWhile isSpace (rev sp2 @ rev a)"
    by simp
  also have "\<dots> = dropWhile isSpace (rev a)"
    using assms(2) by (intro dropWhile_append2) simp
  also have "\<dots> = rev a" using False l by (cases "rev a") (auto simp: last_rev hd_rev)
  finally show ?thesis by (simp add: trim_def 1)
qed

lemma trim_clean: "\<forall>c \<in> set s. \<not> isSpace c \<Longrightarrow> trim s = s"
  using trim_strip [of "[]" "[]" s] by (cases "s = []") simp_all

lemma space_not_reserved: "isSpace c \<Longrightarrow> \<not> isReserved c"
  by (auto simp: isSpace_def isReserved_def)

lemma hyphen_plain [simp]: "\<not> isSpace 0x2D" "\<not> isReserved 0x2D" "\<not> isReserved 0x20" "isSpace 0x20"
  by (simp_all add: isSpace_def isReserved_def)

lemma length_lit [simp]: "length (lit s) = length s"
  by (simp add: lit_def)

lemma lit_hyphen: "lit ''-'' = [0x2D]" and lit_space: "lit '' '' = [0x20]"
  by (simp_all add: lit_def)

lemma default_plain: "\<forall>c \<in> set (lit ''auragold''). \<not> isReserved c"
  by (simp add: lit_def isReserved_def)


lemma collapse_spaces_run:
  assumes "w \<noteq> []" and "\<forall>c \<in> set w. isSpace c" and "b = [] \<or> \<not> isSpace (hd b)"
  shows "replaceRuns isSpace [0x20] (w @ b) = 0x20 # replaceRuns isSpace [0x20] b"
  using replaceRuns_run [OF assms, of "[0x20]"] by simp

lemma collapse_padded:
  assumes a: "\<forall>c \<in> set a. isPlain c"
    and w1: "\<forall>c \<in> set w1. isSpace c" and w2: "\<forall>c \<in> set w2. isSpace c"
  shows "\<exists>sp1 sp2. (\<forall>c \<in> set sp1. isSpace c) \<and> (\<forall>c \<in> set sp2. isSpace c) \<and>
           replaceRuns isSpace [0x20] (w1 @ a @ w2) = sp1 @ a @ sp2"
proof (cases "a = []")
  case True
  show ?thesis
  proof (cases "w1 @ w2 = []")
    case True
    with \<open>a = []\<close> show ?thesis by simp
  next
    case False
    have "\<forall>c \<in> set (w1 @ w2). isSpace c" using w1 w2 by auto
    from collapse_spaces_run [OF False this, of "[]"] \<open>a = []\<close>
    have "replaceRuns isSpace [0x20] (w1 @ a @ w2) = [0x20] @ a @ []" by simp
    then show ?thesis by (intro exI [of _ "[0x20]"] exI [of _ "[]"]) simp
  qed
next
  case False
  then have hd: "\<not> isSpace (hd (a @ w2))"
    using a by (cases a) (simp_all add: isPlain_def)
  have "\<exists>sp2. (\<forall>c \<in> set sp2. isSpace c) \<and> replaceRuns isSpace [0x20] w2 = sp2"
  proof (cases "w2 = []")
    case True
    then show ?thesis by simp
  next
    case False
    from collapse_spaces_run [OF False w2, of "[]"] show ?thesis by simp
  qed
  then obtain sp2 where sp2: "\<forall>c \<in> set sp2. isSpace c" "replaceRuns isSpace [0x20] w2 = sp2"
    by blast
  have mid: "replaceRuns isSpace [0x20] (a @ w2) = a @ sp2"
    using a by (simp add: replaceRuns_clean_prefix isPlain_def sp2(2))
  show ?thesis
  proof (cases "w1 = []")
    case True
    with mid sp2(1) show ?thesis by (intro exI [of _ "[]"] exI [of _ sp2]) simp
  next
    case False
    from collapse_spaces_run [OF False w1, of "a @ w2"] hd mid
    have "replaceRuns isSpace [0x20] (w1 @ a @ w2) = [0x20] @ a @ sp2" by simp
    with sp2(1) show ?thesis by (intro exI [of _ "[0x20]"] exI [of _ sp2]) simp
  qed
qed

lemma plain_ends: "\<forall>c \<in> set a. isPlain c \<Longrightarrow> a = [] \<or> (\<not> isSpace (hd a) \<and> \<not> isSpace (last a))"
  by (cases "a = []") (auto simp: isPlain_def)

lemma finish_default: "(let s = take 80 t in if s = [] then d else s) = (if t = [] then d else take 80 t)"
  by (cases t) simp_all

lemma separated_Cons:
  "separated ((r, p) # segs) \<longleftrightarrow>
     r \<noteq> [] \<and> ((\<forall>c \<in> set r. isReserved c) \<or> (\<forall>c \<in> set r. isSpace c)) \<and>
     p \<noteq> [] \<and> (\<forall>c \<in> set p. isPlain c) \<and> separated segs"
  by (auto simp: separated_def)

lemma spelled_simps [simp]:
  "spelled [] = []" "spelled ((r, p) # segs) = r @ p @ spelled segs"
  by (simp_all add: spelled_def)

lemma hyphenated_simps [simp]:
  "hyphenated [] = []"
  "hyphenated ((r, p) # segs) = (if isReserved (hd r) then [0x2D] else r) @ p @ hyphenated segs"
  by (simp_all add: hyphenated_def)

lemma rendered_simps [simp]:
  "rendered [] = []"
  "rendered ((r, p) # segs) = (if isReserved (hd r) then [0x2D] else [0x20]) @ p @ rendered segs"
  by (simp_all add: rendered_def lit_hyphen lit_space)

lemma hyphenate_spelled:
  "separated segs \<Longrightarrow> replaceRuns isReserved [0x2D] (spelled segs) = hyphenated segs"
proof (induction segs)
  case Nil
  show ?case by simp
next
  case (Cons seg segs)
  obtain r p where seg: "seg = (r, p)" by (cases seg)
  from Cons.prems have r: "r \<noteq> []"
    and cls: "(\<forall>c \<in> set r. isReserved c) \<or> (\<forall>c \<in> set r. isSpace c)"
    and p: "p \<noteq> []" "\<forall>c \<in> set p. isPlain c" and rest: "separated segs"
    by (simp_all add: seg separated_Cons)
  have IH: "replaceRuns isReserved [0x2D] (spelled segs) = hyphenated segs"
    using rest by (rule Cons.IH)
  have pr: "\<forall>c \<in> set p. \<not> isReserved c" using p(2) by (simp add: isPlain_def)
  show ?case
  proof (cases "isReserved (hd r)")
    case True
    with r cls have all: "\<forall>c \<in> set r. isReserved c"
      by (cases r) (auto dest: space_not_reserved)
    have "\<not> isReserved (hd (p @ spelled segs))" using p pr by (cases p) simp_all
    then have "replaceRuns isReserved [0x2D] (r @ p @ spelled segs)
        = [0x2D] @ replaceRuns isReserved [0x2D] (p @ spelled segs)"
      using r all by (intro replaceRuns_run) simp_all
    then show ?thesis using True pr by (simp add: seg replaceRuns_clean_prefix IH)
  next
    case False
    with r cls have "\<forall>c \<in> set r. isSpace c" by (cases r) auto
    then have "\<forall>c \<in> set (r @ p). \<not> isReserved c"
      using pr by (auto dest: space_not_reserved)
    from replaceRuns_clean_prefix [OF this, of "[0x2D]" "spelled segs"] IH False
    show ?thesis by (simp add: seg)
  qed
qed

lemma collapse_hyphenated:
  "separated segs \<Longrightarrow> replaceRuns isSpace [0x20] (hyphenated segs) = rendered segs"
proof (induction segs)
  case Nil
  show ?case by simp
next
  case (Cons seg segs)
  obtain r p where seg: "seg = (r, p)" by (cases seg)
  from Cons.prems have r: "r \<noteq> []"
    and cls: "(\<forall>c \<in> set r. isReserved c) \<or> (\<forall>c \<in> set r. isSpace c)"
    and p: "p \<noteq> []" "\<forall>c \<in> set p. isPlain c" and rest: "separated segs"
    by (simp_all add: seg separated_Cons)
  have IH: "replaceRuns isSpace [0x20] (hyphenated segs) = rendered segs"
    using rest by (rule Cons.IH)
  have ps: "\<forall>c \<in> set p. \<not> isSpace c" using p(2) by (simp add: isPlain_def)
  show ?case
  proof (cases "isReserved (hd r)")
    case True
    have "\<forall>c \<in> set ([0x2D] @ p). \<not> isSpace c" using ps by simp
    from replaceRuns_clean_prefix [OF this, of "[0x20]" "hyphenated segs"] IH True
    show ?thesis by (simp add: seg)
  next
    case False
    with r cls have all: "\<forall>c \<in> set r. isSpace c" by (cases r) auto
    have "\<not> isSpace (hd (p @ hyphenated segs))" using p ps by (cases p) simp_all
    then have "replaceRuns isSpace [0x20] (r @ p @ hyphenated segs)
        = 0x20 # replaceRuns isSpace [0x20] (p @ hyphenated segs)"
      using r all by (intro collapse_spaces_run) simp_all
    then show ?thesis using False ps by (simp add: seg replaceRuns_clean_prefix IH)
  qed
qed

lemma rendered_last:
  "separated segs \<Longrightarrow> segs \<noteq> [] \<Longrightarrow> rendered segs \<noteq> [] \<and> \<not> isSpace (last (rendered segs))"
proof (induction segs)
  case Nil
  then show ?case by simp
next
  case (Cons seg segs)
  obtain r p where seg: "seg = (r, p)" by (cases seg)
  from Cons.prems have p: "p \<noteq> []" "\<forall>c \<in> set p. isPlain c" and rest: "separated segs"
    by (simp_all add: seg separated_Cons)
  show ?case
  proof (cases "segs = []")
    case True
    with p show ?thesis by (simp add: seg isPlain_def)
  next
    case False
    with Cons.IH [OF rest] show ?thesis by (simp add: seg)
  qed
qed

lemma length_rendered:
  "length (rendered segs) = (\<Sum>(r, p)\<leftarrow>segs. Suc (length p))"
  by (induction segs) (auto split: prod.splits)

lemma safeFilename_separated:
  assumes "p0 \<noteq> []" and "\<forall>c \<in> set p0. isPlain c" and "separated segs"
    and "length p0 + (\<Sum>(r, p)\<leftarrow>segs. Suc (length p)) \<le> 80"
  shows "safeFilename (p0 @ spelled segs) = p0 @ rendered segs"
proof -
  let ?s = "p0 @ rendered segs"
  have 1: "replaceRuns isReserved [0x2D] (p0 @ spelled segs) = p0 @ hyphenated segs"
    using assms(2,3) by (simp add: replaceRuns_clean_prefix isPlain_def hyphenate_spelled)
  have 2: "replaceRuns isSpace [0x20] (p0 @ hyphenated segs) = ?s"
    using assms(2,3) by (simp add: replaceRuns_clean_prefix isPlain_def collapse_hyphenated)
  have h: "\<not> isSpace (hd ?s)" using assms(1,2) by (cases p0) (simp_all add: isPlain_def)
  have l: "\<not> isSpace (last ?s)"
  proof (cases "segs = []")
    case True
    with assms(1,2) show ?thesis by (simp add: isPlain_def)
  next
    case False
    with rendered_last [OF assms(3)] show ?thesis by simp
  qed
  have 3: "trim ?s = ?s" using trim_strip [of "[]" "[]" ?s] h l by simp
  have 4: "take 80 ?s = ?s" using assms(4) by (intro take_all) (simp add: length_rendered)
  have 5: "?s \<noteq> []" using assms(1) by simp
  show ?thesis
    by (simp only: safeFilename_def lit_hyphen lit_space 1 2 3 4 Let_def 5 if_False)
qed

lemma heads_after_run:
  "map snd (filter (\<lambda>(prev, c). \<not> (prev \<and> P c)) (zip (True # map P s) s)) =
   map snd (filter (\<lambda>(prev, c). \<not> (prev \<and> P c))
              (zip (False # map P (dropWhile P s)) (dropWhile P s)))"
  by (induction s) auto

lemma replaceRuns_substituteRuns: "replaceRuns P rep s = substituteRuns P rep s"
proof (induction P rep s rule: replaceRuns.induct)
  case (1 P rep)
  show ?case by (simp add: substituteRuns_def runHeads_def)
next
  case (2 P rep c cs)
  show ?case
  proof (cases "P c")
    case True
    with 2 have "replaceRuns P rep (c # cs) = rep @ substituteRuns P rep (dropWhile P cs)"
      by simp
    also have "\<dots> = substituteRuns P rep (c # cs)"
      using True heads_after_run [of P cs] by (simp add: substituteRuns_def runHeads_def)
    finally show ?thesis .
  next
    case False
    with 2 show ?thesis by (simp add: substituteRuns_def runHeads_def)
  qed
qed

lemma safeFilename_amended: "safeFilename nm = sanitizeAsAmended nm"
  by (simp add: safeFilename_def sanitizeAsAmended_def replaceRuns_substituteRuns)

text \<open>
  Claim C9, amended. For every input the sanitiser computes what the amended claim says:
  every maximal run of reserved characters is replaced by one hyphen (replaced, not stripped),
  then every run of white space by one space, the result is trimmed and cut to 80 code units,
  and the default name stands in for an empty result. A name of at most 80 code units that is
  plain text with any number of separators in it, each a run of reserved characters or a run
  of white space followed by plain text, comes out with one hyphen for each reserved run and
  one space for each run of white space. In particular the result holds no
  reserved character, has at most 80 code units and is not empty; a run of reserved characters
  between plain text becomes one hyphen; a run of white space between plain text becomes one
  space; white space around plain text is trimmed away; and an input of white space only gives
  the default name.
\<close>

theorem safeFilename_properties:
  "safeFilename nm = sanitizeAsAmended nm \<and>
   (p0 \<noteq> [] \<and> (\<forall>c \<in> set p0. isPlain c) \<and> separated segs \<and>
      length p0 + (\<Sum>(r, p)\<leftarrow>segs. Suc (length p)) \<le> 80
      \<longrightarrow> safeFilename (p0 @ spelled segs) = p0 @ rendered segs) \<and>
   (\<forall>c \<in> set (safeFilename nm). \<not> isReserved c) \<and>
   length (safeFilename nm) \<le> 80 \<and>
   safeFilename nm \<noteq> [] \<and>
   ((\<forall>c \<in> set a. isPlain c) \<and> (\<forall>c \<in> set b. isPlain c) \<and>
      run \<noteq> [] \<and> (\<forall>c \<in> set run. isReserved c) \<and> length a + length b < 80
      \<longrightarrow> safeFilename (a @ run @ b) = a @ lit ''-'' @ b) \<and>
   ((\<forall>c \<in> set a. isPlain c) \<and> (\<forall>c \<in> set b. isPlain c) \<and> a \<noteq> [] \<and> b \<noteq> [] \<and>
      ws \<noteq> [] \<and> (\<forall>c \<in> set ws. isSpace c) \<and> length a + length b < 80
      \<longrightarrow> safeFilename (a @ ws @ b) = a @ lit '' '' @ b) \<and>
   ((\<forall>c \<in> set a. isPlain c) \<and> (\<forall>c \<in> set w1. isSpace c) \<and> (\<forall>c \<in> set w2. isSpace c)
      \<longrightarrow> safeFilename (w1 @ a @ w2) = (if a = [] then lit ''auragold'' else take 80 a))"
proof (intro conjI impI)
  show "safeFilename nm = sanitizeAsAmended nm"
    by (rule safeFilename_amended)
next
  assume "p0 \<noteq> [] \<and> (\<forall>c \<in> set p0. isPlain c) \<and> separated segs \<and>
      length p0 + (\<Sum>(r, p)\<leftarrow>segs. Suc (length p)) \<le> 80"
  then show "safeFilename (p0 @ spelled segs) = p0 @ rendered segs"
    by (intro safeFilename_separated) simp_all
next
  let ?r = "replaceRuns isReserved (lit ''-'') nm"
  let ?w = "replaceRuns isSpace (lit '' '') ?r"
  have "set ?r \<subseteq> {0x2D} \<union> {c \<in> set nm. \<not> isReserved c}"
    using set_replaceRuns [of isReserved "lit ''-''" nm] by (simp add: lit_hyphen)
  then have r: "\<forall>c \<in> set ?r. \<not> isReserved c" by auto
  have "set ?w \<subseteq> {0x20} \<union> {c \<in> set ?r. \<not> isSpace c}"
    using set_replaceRuns [of isSpace "lit '' ''" ?r] by (simp add: lit_space)
  with r have "\<forall>c \<in> set ?w. \<not> isReserved c" by auto
  then have "\<forall>c \<in> set (take 80 (trim ?w)). \<not> isReserved c"
    using set_trim [of ?w] by (auto dest!: in_set_takeD)
  then show "\<forall>c \<in> set (safeFilename nm). \<not> isReserved c"
    using default_plain by (simp add: safeFilename_def Let_def lit_hyphen lit_space)
next
  show "length (safeFilename nm) \<le> 80"
    by (simp add: safeFilename_def Let_def lit_hyphen lit_space)
next
  show "safeFilename nm \<noteq> []"
    by (simp add: safeFilename_def Let_def lit_hyphen lit_space)
next
  assume h: "(\<forall>c \<in> set a. isPlain c) \<and> (\<forall>c \<in> set b. isPlain c) \<and>
      run \<noteq> [] \<and> (\<forall>c \<in> set run. isReserved c) \<and> length a + length b < 80"
  let ?s = "a @ [0x2D] @ b"
  have b0: "b = [] \<or> \<not> isReserved (hd b)" using h by (cases b) (simp_all add: isPlain_def)
  have "replaceRuns isReserved [0x2D] (run @ b) = [0x2D] @ replaceRuns isReserved [0x2D] b"
    using h b0 by (intro replaceRuns_run) simp_all
  also have "replaceRuns isReserved [0x2D] b = b"
    using h by (simp add: replaceRuns_clean isPlain_def)
  finally have "replaceRuns isReserved [0x2D] (a @ run @ b) = ?s"
    using h by (simp add: replaceRuns_clean_prefix isPlain_def)
  moreover have ns: "\<forall>c \<in> set ?s. \<not> isSpace c" using h by (auto simp: isPlain_def)
  then have "replaceRuns isSpace [0x20] ?s = ?s" by (rule replaceRuns_clean)
  moreover have "trim ?s = ?s" using ns by (rule trim_clean)
  moreover have "take 80 ?s = ?s" using h by (intro take_all) simp
  ultimately show "safeFilename (a @ run @ b) = a @ lit ''-'' @ b"
    by (simp add: safeFilename_def Let_def lit_hyphen lit_space)
next
  assume h: "(\<forall>c \<in> set a. isPlain c) \<and> (\<forall>c \<in> set b. isPlain c) \<and> a \<noteq> [] \<and> b \<noteq> [] \<and>
      ws \<noteq> [] \<and> (\<forall>c \<in> set ws. isSpace c) \<and> length a + length b < 80"
  let ?s = "a @ [0x20] @ b"
  have "\<forall>c \<in> set (a @ ws @ b). \<not> isReserved c"
    using h by (auto simp: isPlain_def space_not_reserved)
  then have 1: "replaceRuns isReserved [0x2D] (a @ ws @ b) = a @ ws @ b"
    by (rule replaceRuns_clean)
  have b0: "b = [] \<or> \<not> isSpace (hd b)" using h by (cases b) (simp_all add: isPlain_def)
  have "replaceRuns isSpace [0x20] (ws @ b) = 0x20 # replaceRuns isSpace [0x20] b"
    using h b0 by (intro collapse_spaces_run) simp_all
  also have "replaceRuns isSpace [0x20] b = b"
    using h by (simp add: replaceRuns_clean isPlain_def)
  finally have 2: "replaceRuns isSpace [0x20] (a @ ws @ b) = ?s"
    using h by (simp add: replaceRuns_clean_prefix isPlain_def)
  have "\<not> isSpace (hd ?s) \<and> \<not> isSpace (last ?s)"
    using h by (cases a) (auto simp: isPlain_def)
  then have 3: "trim ?s = ?s" using trim_strip [of "[]" "[]" ?s] by simp
  have 4: "take 80 ?s = ?s" using h by (intro take_all) simp
  from 1 2 3 4 show "safeFilename (a @ ws @ b) = a @ lit '' '' @ b"
    by (simp add: safeFilename_def Let_def lit_hyphen lit_space)
next
  assume h: "(\<forall>c \<in> set a. isPlain c) \<and> (\<forall>c \<in> set w1. isSpace c) \<and> (\<forall>c \<in> set w2. isSpace c)"
  have "\<forall>c \<in> set (w1 @ a @ w2). \<not> isReserved c"
    using h by (auto simp: isPlain_def space_not_reserved)
  then have 1: "replaceRuns isReserved [0x2D] (w1 @ a @ w2) = w1 @ a @ w2"
    by (rule replaceRuns_clean)
  from collapse_padded [of a w1 w2] h obtain sp1 sp2 where
    sp: "\<forall>c \<in> set sp1. isSpace c" "\<forall>c \<in> set sp2. isSpace c"
      "replaceRuns isSpace [0x20] (w1 @ a @ w2) = sp1 @ a @ sp2" by blast
  have 3: "trim (sp1 @ a @ sp2) = a"
    using sp(1,2) plain_ends [of a] h by (intro trim_strip) simp_all
  show "safeFilename (w1 @ a @ w2) = (if a = [] then lit ''auragold'' else take 80 a)"
    by (simp add: safeFilename_def lit_hyphen lit_space 1 sp(3) 3 finish_default)
qed

theorem safeFilename_hyphen_counterexample:
  "safeFilename (lit ''a/b'') = lit ''a-b'' \<and> sanitizeAsSpecified (lit ''a/b'') = lit ''ab'' \<and>
   safeFilename (lit ''a/b'') \<noteq> sanitizeAsSpecified (lit ''a/b'')"
  by (simp add: safeFilename_def sanitizeAsSpecified_def lit_def isReserved_def isSpace_def
      trim_def)

theorem safeFilename_properties_witness:
  "safeFilename (lit ''a/b/c'') = lit ''a-b-c'' \<and>
   safeFilename (lit ''my  gold  book'') = lit ''my gold book'' \<and>
   safeFilename (lit ''my'' @ spelled [([0x20, 0x3000], lit ''gold''), (lit ''/:'', lit ''book'')])
     = lit ''my gold-book'' \<and>
   safeFilename (lit ''gold'' @ lit ''/:'' @ lit ''2024'') = lit ''gold'' @ lit ''-'' @ lit ''2024'' \<and>
   safeFilename (lit ''my'' @ [0x20, 0x3000, 0x9] @ lit ''ledger'') = lit ''my'' @ lit '' '' @ lit ''ledger'' \<and>
   safeFilename ([0x20, 0xA] @ lit ''book'' @ [0x20]) = lit ''book'' \<and>
   safeFilename ([0x20, 0xA] @ [] @ [0x20]) = lit ''auragold''"
proof -
  let ?segs = "[([0x20, 0x3000], lit ''gold''), (lit ''/:'', lit ''book'')]"
  have p1: "\<forall>c \<in> set (lit ''gold''). isPlain c" "\<forall>c \<in> set (lit ''2024''). isPlain c"
    "\<forall>c \<in> set (lit ''my''). isPlain c" "\<forall>c \<in> set (lit ''ledger''). isPlain c"
    "\<forall>c \<in> set (lit ''book''). isPlain c"
    by (simp_all add: lit_def isPlain_def isReserved_def isSpace_def)
  have r: "lit ''/:'' \<noteq> []" "\<forall>c \<in> set (lit ''/:''). isReserved c"
    by (simp_all add: lit_def isReserved_def)
  have w: "\<forall>c \<in> set [0x20, 0x3000, 0x9 :: 16 word]. isSpace c"
    "\<forall>c \<in> set [0x20, 0xA :: 16 word]. isSpace c" "\<forall>c \<in> set [0x20 :: 16 word]. isSpace c"
    by (simp_all add: isSpace_def)
  have n: "lit ''my'' \<noteq> []" "lit ''ledger'' \<noteq> []" "lit ''book'' \<noteq> []"
    "length (lit ''gold'') + length (lit ''2024'') < 80"
    "length (lit ''my'') + length (lit ''ledger'') < 80"
    "take 80 (lit ''book'') = lit ''book''"
    by (simp_all add: lit_def)
  have e: "sanitizeAsAmended (lit ''a/b/c'') = lit ''a-b-c''"
    "sanitizeAsAmended (lit ''my  gold  book'') = lit ''my gold book''"
    by (simp_all add: sanitizeAsAmended_def substituteRuns_def runHeads_def lit_def
        isReserved_def isSpace_def trim_def)
  have g: "separated ?segs"
    "length (lit ''my'') + (\<Sum>(r, p)\<leftarrow>?segs. Suc (length p)) \<le> 80"
    "lit ''my'' @ rendered ?segs = lit ''my gold-book''"
    by (simp_all add: separated_def rendered_def lit_def isPlain_def isReserved_def isSpace_def)
  have law: "safeFilename (lit ''my'' @ spelled ?segs) = lit ''my gold-book''"
    using safeFilename_properties [of "[]" "lit ''my''" ?segs "[]" "[]" "[0x2F]" "[0x20]" "[]" "[]"]
      n(1) p1(3) g
    by simp
  show ?thesis
    using safeFilename_properties [of "lit ''a/b/c''" "[]" "[]" "lit ''gold''" "lit ''2024''" "lit ''/:''" "[]" "[]" "[]"]
      safeFilename_properties [of "lit ''my  gold  book''" "[]" "[]" "lit ''my''" "lit ''ledger''" "[0x2F]" "[0x20, 0x3000, 0x9]" "[]" "[]"]
      safeFilename_properties [of "[]" "[]" "[]" "lit ''book''" "[]" "[0x2F]" "[0x20]" "[0x20, 0xA]" "[0x20]"]
      safeFilename_properties [of "[]" "[]" "[]" "[]" "[]" "[0x2F]" "[0x20]" "[0x20, 0xA]" "[0x20]"]
      p1 r w n e law
    by simp
qed

section \<open>Export followed by import\<close>

lemma normalize_recordToJson:
  "recordOk r \<Longrightarrow> normalizeTradeRecord N (recordToJson r) = Some r"
  by (simp add: recordOk_def normalizeTradeRecord_def recordToJson_def numberToJson_def
      coerce_defs)

lemma normalizedRecords_recordToJson:
  "\<forall>r \<in> set rs. recordOk r \<Longrightarrow> normalizedRecords N (map recordToJson rs) = rs"
  by (induction rs) (simp_all add: normalize_recordToJson)

lemma firstOccurrences_distinct: "distinct (map rec_id rs) \<Longrightarrow> firstOccurrences rs = rs"
proof (induction rs)
  case Nil
  show ?case by simp
next
  case (Cons r rs)
  from Cons.prems have "rec_id r \<notin> rec_id ` set rs" by simp
  then have "\<forall>x \<in> set rs. rec_id x \<noteq> rec_id r" by (metis imageI)
  then have "filter (\<lambda>x. rec_id x \<noteq> rec_id r) rs = rs"
    by (simp add: filter_id_conv)
  with Cons show ?case by simp
qed

lemma collectRecords_recordToJson:
  assumes "\<forall>r \<in> set rs. recordOk r" and "distinct (map rec_id rs)"
  shows "collectRecords N (map recordToJson rs) [] {} = Some rs"
proof -
  have "\<forall>item \<in> set (map recordToJson rs). normalizeTradeRecord N item \<noteq> None"
    using assms(1) by (auto simp: normalize_recordToJson)
  from collectRecords_eq [OF this, of "[]" "{}"] show ?thesis
    using assms by (simp add: normalizedRecords_recordToJson firstOccurrences_distinct)
qed

lemma normalize_ledgerToJson:
  "exportable l \<Longrightarrow> normalizeLedger N (ledgerToJson l) = Some (sortedRecords l)"
  by (simp add: exportable_def normalizeLedger_def ledgerToJson_def numberToJson_def
      coerce_defs collectRecords_recordToJson sortedRecords_def)

lemma collectLedgers_ledgerToJson:
  "\<forall>l \<in> set ls. exportable l \<Longrightarrow>
     collectLedgers N (map ledgerToJson ls) acc = Some (acc @ map sortedRecords ls)"
  by (induction ls arbitrary: acc) (simp_all add: normalize_ledgerToJson)

lemma mapSet_new: "k \<notin> fst ` set m \<Longrightarrow> mapSet k v m = m @ [(k, v)]"
  by (induction m) auto

lemma map_of_None_iff: "map_of m k = None \<longleftrightarrow> k \<notin> fst ` set m"
  by (simp add: map_of_eq_None_iff)

lemma dedupeStep_new: "ledger_id l \<notin> fst ` set m \<Longrightarrow> dedupeStep l m = m @ [(ledger_id l, l)]"
  by (simp add: dedupeStep_def mapSet_new map_of_None_iff [symmetric])

lemma fold_dedupeStep_distinct:
  "distinct (map ledger_id ls) \<Longrightarrow> ledger_id ` set ls \<inter> fst ` set m = {} \<Longrightarrow>
     fold dedupeStep ls m = m @ map (\<lambda>l. (ledger_id l, l)) ls"
proof (induction ls arbitrary: m)
  case Nil
  show ?case by simp
next
  case (Cons l ls)
  have 1: "dedupeStep l m = m @ [(ledger_id l, l)]"
    using Cons.prems by (intro dedupeStep_new) auto
  have 2: "ledger_id ` set ls \<inter> fst ` set (m @ [(ledger_id l, l)]) = {}"
    using Cons.prems by auto
  show ?case using Cons.prems Cons.IH [OF _ 2] by (simp add: 1)
qed

lemma dedupe_distinct:
  "distinct (map ledger_id ls) \<Longrightarrow> dedupeLedgersById ls = arraySort byCreatedAtAsc ls"
  by (simp add: dedupeLedgersById_def fold_dedupeStep_distinct mapValues_def comp_def)

lemma sortLedgers_id:
  assumes "\<forall>l \<in> set ls. isFinite (createdAt l)" and "createdAscending ls"
  shows "arraySort byCreatedAtAsc ls = ls"
  using assms asc_sorted_iff [of ls createdAt]
  by (simp add: sortLedgers_sort_key createdAscending_def sort_key_id_if_sorted)

lemma sortedRecords_simps [simp]:
  "ledger_id (sortedRecords l) = ledger_id l"
  "name (sortedRecords l) = name l"
  "createdAt (sortedRecords l) = createdAt l"
  "records (sortedRecords l) = arraySort byTimestampDesc (records l)"
  by (simp_all add: sortedRecords_def)

text \<open>
  Claim C5, amended. For ledgers with distinct ids, each with a non-empty id and name, finite
  numbers and records of distinct non-empty ids, normalising the "all data" envelope of the
  ledgers gives the ledgers with their records in descending timestamp order, the list itself
  re-sorted by ascending \<open>createdAt\<close>, together with the active ledger id and the
  language and theme when they are among the accepted ones. When the ledgers were already in
  ascending \<open>createdAt\<close> order the list comes back ledger for ledger.
\<close>

theorem export_import_round_trip:
  assumes "\<forall>l \<in> set ls. exportable l" and "distinct (map ledger_id ls)"
  shows "normalizeAllImport N (exportAllDataJson exportedAt ls active lg th) =
           Some \<lparr>ledgers = arraySort byCreatedAtAsc (map sortedRecords ls),
                 activeLedgerId = Some active,
                 lang = (if lg = lit ''en'' \<or> lg = lit ''zh'' then Some lg else None),
                 theme = (if th = lit ''light'' \<or> th = lit ''dark'' then Some th else None)\<rparr> \<and>
         (createdAscending ls \<longrightarrow>
            arraySort byCreatedAtAsc (map sortedRecords ls) = map sortedRecords ls)"
proof
  have d: "distinct (map ledger_id (map sortedRecords ls))"
    using assms(2) by (simp add: comp_def)
  show "normalizeAllImport N (exportAllDataJson exportedAt ls active lg th) =
           Some \<lparr>ledgers = arraySort byCreatedAtAsc (map sortedRecords ls),
                 activeLedgerId = Some active,
                 lang = (if lg = lit ''en'' \<or> lg = lit ''zh'' then Some lg else None),
                 theme = (if th = lit ''light'' \<or> th = lit ''dark'' then Some th else None)\<rparr>"
    using assms(1)
    by (simp add: normalizeAllImport_def exportAllDataJson_def coerce_defs
        collectLedgers_ledgerToJson dedupe_distinct [OF d])
next
  show "createdAscending ls \<longrightarrow>
      arraySort byCreatedAtAsc (map sortedRecords ls) = map sortedRecords ls"
  proof
    assume "createdAscending ls"
    then have "createdAscending (map sortedRecords ls)"
      by (simp add: createdAscending_def sorted_wrt_map)
    moreover have "\<forall>l \<in> set (map sortedRecords ls). isFinite (createdAt l)"
      using assms(1) by (simp add: exportable_def)
    ultimately show "arraySort byCreatedAtAsc (map sortedRecords ls) = map sortedRecords ls"
      by (intro sortLedgers_id)
  qed
qed

theorem export_import_round_trip_witness:
  "normalizeAllImport (\<lambda>s. NaN)
     (exportAllDataJson (lit ''2024-01-01T00:00:00.000Z'')
        [sampleLedger ''L1'' ''A'' 1000 [sampleRecord ''r1'' 10, sampleRecord ''r2'' 20],
         sampleLedger ''L2'' ''B'' 2000 []]
        (lit ''L1'') (lit ''en'') (lit ''dark''))
   = Some \<lparr>ledgers =
              [sampleLedger ''L1'' ''A'' 1000 [sampleRecord ''r2'' 20, sampleRecord ''r1'' 10],
               sampleLedger ''L2'' ''B'' 2000 []],
            activeLedgerId = Some (lit ''L1''), lang = Some (lit ''en''),
            theme = Some (lit ''dark'')\<rparr>"
proof -
  let ?ls = "[sampleLedger ''L1'' ''A'' 1000 [sampleRecord ''r1'' 10, sampleRecord ''r2'' 20],
              sampleLedger ''L2'' ''B'' 2000 []]"
  have h1: "\<forall>l \<in> set ?ls. exportable l"
    by (simp add: exportable_def recordOk_def sample_defs)
  have h2: "distinct (map ledger_id ?ls)"
    by (simp add: sample_defs)
  have h3: "createdAscending ?ls"
    by (simp add: createdAscending_def sample_defs)
  have s: "map sortedRecords ?ls =
      [sampleLedger ''L1'' ''A'' 1000 [sampleRecord ''r2'' 20, sampleRecord ''r1'' 10],
       sampleLedger ''L2'' ''B'' 2000 []]"
    by (simp add: sortedRecords_def arraySort_def byTimestampDesc_def sample_defs)
  from export_import_round_trip [OF h1 h2, of "\<lambda>s. NaN" "lit ''2024-01-01T00:00:00.000Z''"
      "lit ''L1''" "lit ''en''" "lit ''dark''"] h3
  show ?thesis unfolding s by simp
qed

theorem round_trip_counterexample:
  "normalizeAllImport (\<lambda>s. NaN)
     (exportAllDataJson (lit ''2024-01-01T00:00:00.000Z'')
        [sampleLedger ''L2'' ''B'' 2000 [], sampleLedger ''L1'' ''A'' 1000 []]
        (lit ''L2'') (lit ''en'') (lit ''dark''))
   = Some \<lparr>ledgers = [sampleLedger ''L1'' ''A'' 1000 [], sampleLedger ''L2'' ''B'' 2000 []],
            activeLedgerId = Some (lit ''L2''), lang = Some (lit ''en''),
            theme = Some (lit ''dark'')\<rparr> \<and>
   [sampleLedger ''L1'' ''A'' 1000 [], sampleLedger ''L2'' ''B'' 2000 []]
     \<noteq> [sampleLedger ''L2'' ''B'' 2000 [], sampleLedger ''L1'' ''A'' 1000 []] \<and>
   normalizeAllImport (\<lambda>s. NaN)
     (exportAllDataJson (lit ''2024-01-01T00:00:00.000Z'')
        [sampleLedger ''L1'' ''A'' 1000 [(sampleRecord ''r1'' 10)\<lparr>profitMargin := NaN\<rparr>]]
        (lit ''L1'') (lit ''en'') (lit ''dark''))
   = None"
  by (simp add: normalizeAllImport_def exportAllDataJson_def normalizeLedger_def
      normalizeTradeRecord_def dedupeLedgersById_def dedupeStep_def mapValues_def
      arraySort_def byCreatedAtAsc_def byTimestampDesc_def coerce_defs sample_defs)

section \<open>Merging the same data again\<close>

lemma sortRecords_idem:
  assumes "\<forall>r \<in> set rs. isFinite (timestamp r)"
  shows "arraySort byTimestampDesc (arraySort byTimestampDesc rs) = arraySort byTimestampDesc rs"
proof -
  have "\<forall>r \<in> set (arraySort byTimestampDesc rs). isFinite (timestamp r)"
    using assms by simp
  from sortRecords_sort_key [OF this] show ?thesis
    by (simp add: sortRecords_sort_key [OF assms] sort_key_id_if_sorted)
qed

lemma sortRecords_id:
  assumes "\<forall>r \<in> set rs. isFinite (timestamp r)"
    and "sorted_wrt (\<lambda>a b. num_le (timestamp b) (timestamp a)) rs"
  shows "arraySort byTimestampDesc rs = rs"
  using assms desc_sorted_iff [of rs timestamp]
  by (simp add: sortRecords_sort_key sort_key_id_if_sorted)

lemma sortLedgers_idem:
  assumes "\<forall>l \<in> set ls. isFinite (createdAt l)"
  shows "arraySort byCreatedAtAsc (arraySort byCreatedAtAsc ls) = arraySort byCreatedAtAsc ls"
proof -
  have "\<forall>l \<in> set (arraySort byCreatedAtAsc ls). isFinite (createdAt l)"
    using assms by simp
  from sortLedgers_sort_key [OF this] show ?thesis
    by (simp add: sortLedgers_sort_key [OF assms] sort_key_id_if_sorted)
qed

lemma mergedRecords_covered:
  "rec_id ` set inc \<subseteq> rec_id ` set prev \<Longrightarrow>
     mergedRecords prev inc = arraySort byTimestampDesc prev"
proof -
  assume "rec_id ` set inc \<subseteq> rec_id ` set prev"
  then have "filter (\<lambda>r. rec_id r \<notin> rec_id ` set prev) inc = []"
    by (auto simp: filter_empty_conv)
  then show ?thesis by (simp add: mergedRecords_def)
qed

lemma mapSet_same: "map_of m k = Some v \<Longrightarrow> mapSet k v m = m"
  by (induction m) (auto split: if_splits)

lemma mergeStep_covered: "keyed m \<Longrightarrow> covered x m \<Longrightarrow> mergeStep x m = m"
proof -
  assume k: "keyed m" and "covered x m"
  then obtain v where v: "map_of m (ledger_id x) = Some v"
    "rec_id ` set (records x) \<subseteq> rec_id ` set (records v)"
    "arraySort byTimestampDesc (records v) = records v"
    by (auto simp: covered_def)
  have "mergedRecords (records v) (records x) = records v"
    using mergedRecords_covered [OF v(2)] v(3) by simp
  moreover have "ledger_id v = ledger_id x" using keyed_lookup [OF k v(1)] .
  ultimately show ?thesis using v(1) by (simp add: mergeStep_def mapSet_same)
qed

lemma fold_mergeStep_covered:
  "keyed m \<Longrightarrow> \<forall>x \<in> set xs. covered x m \<Longrightarrow> fold mergeStep xs m = m"
  by (induction xs) (simp_all add: mergeStep_covered)

lemma finiteMap_mapSet: "finiteMap m \<Longrightarrow> finiteTimes v \<Longrightarrow> finiteMap (mapSet k v m)"
  unfolding finiteMap_def using set_mapSet_subset [of k v m] by auto

lemma finiteMap_lookup: "finiteMap m \<Longrightarrow> map_of m k = Some v \<Longrightarrow> finiteTimes v"
  unfolding finiteMap_def by (drule map_of_SomeD) force

lemma finiteMap_seedStep: "finiteMap m \<Longrightarrow> finiteTimes l \<Longrightarrow> finiteMap (seedStep l m)"
  by (simp add: seedStep_def finiteMap_mapSet)

lemma finiteTimes_merged:
  "finiteTimes v \<Longrightarrow> finiteTimes y \<Longrightarrow>
     finiteTimes (v\<lparr>records := mergedRecords (records v) (records y)\<rparr>)"
  by (auto simp: finiteTimes_def set_mergedRecords)

lemma finiteMap_mergeStep: "finiteMap m \<Longrightarrow> finiteTimes y \<Longrightarrow> finiteMap (mergeStep y m)"
proof (cases "map_of m (ledger_id y)")
  case None
  assume "finiteMap m" "finiteTimes y"
  with None show ?thesis by (simp add: mergeStep_def finiteMap_mapSet)
next
  case (Some v)
  assume m: "finiteMap m" and y: "finiteTimes y"
  have "finiteTimes v" using finiteMap_lookup [OF m Some] .
  with Some m y show ?thesis
    by (simp add: mergeStep_def finiteMap_mapSet finiteTimes_merged)
qed

lemma finiteMap_fold_seedStep:
  "finiteMap m \<Longrightarrow> \<forall>l \<in> set ls. finiteTimes l \<Longrightarrow> finiteMap (fold seedStep ls m)"
  by (induction ls arbitrary: m) (simp_all add: finiteMap_seedStep)

lemma finiteMap_fold_mergeStep:
  "finiteMap m \<Longrightarrow> \<forall>l \<in> set ls. finiteTimes l \<Longrightarrow> finiteMap (fold mergeStep ls m)"
  by (induction ls arbitrary: m) (simp_all add: finiteMap_mergeStep)

lemma covered_mergeStep_self:
  assumes "keyed m" "finiteMap m" "finiteTimes x" "recordsDescending x"
  shows "covered x (mergeStep x m)"
proof (cases "map_of m (ledger_id x)")
  case None
  have "arraySort byTimestampDesc (records x) = records x"
    using assms(3,4) by (intro sortRecords_id) (simp_all add: finiteTimes_def recordsDescending_def)
  with None show ?thesis by (simp add: covered_def mergeStep_def)
next
  case (Some v)
  have id: "ledger_id v = ledger_id x" using keyed_lookup [OF assms(1) Some] .
  have "finiteTimes v" using finiteMap_lookup [OF assms(2) Some] .
  then have fin: "\<forall>r \<in> set (records v @ filter (\<lambda>r. rec_id r \<notin> set (map rec_id (records v))) (records x)).
      isFinite (timestamp r)"
    using assms(3) by (auto simp: finiteTimes_def)
  have "arraySort byTimestampDesc (mergedRecords (records v) (records x))
      = mergedRecords (records v) (records x)"
    unfolding mergedRecords_def Let_def by (rule sortRecords_idem [OF fin])
  then show ?thesis
    using Some id by (simp add: covered_def mergeStep_def ids_mergedRecords)
qed

lemma covered_mergeStep_other:
  assumes "keyed m" "finiteMap m" "finiteTimes y" "covered x m"
  shows "covered x (mergeStep y m)"
proof (cases "ledger_id y = ledger_id x")
  case False
  then have "map_of (mergeStep y m) (ledger_id x) = map_of m (ledger_id x)"
    using assms(1) by (auto simp: mergeStep_def keyed_lookup split: option.splits)
  with assms(4) show ?thesis by (simp add: covered_def)
next
  case True
  from assms(4) obtain v where v: "map_of m (ledger_id x) = Some v"
    "rec_id ` set (records x) \<subseteq> rec_id ` set (records v)"
    by (auto simp: covered_def)
  have id: "ledger_id v = ledger_id x" using keyed_lookup [OF assms(1) v(1)] .
  have "finiteTimes v" using finiteMap_lookup [OF assms(2) v(1)] .
  then have fin: "\<forall>r \<in> set (records v @ filter (\<lambda>r. rec_id r \<notin> set (map rec_id (records v))) (records y)).
      isFinite (timestamp r)"
    using assms(3) by (auto simp: finiteTimes_def)
  have "arraySort byTimestampDesc (mergedRecords (records v) (records y))
      = mergedRecords (records v) (records y)"
    unfolding mergedRecords_def Let_def by (rule sortRecords_idem [OF fin])
  then show ?thesis
    using v id True by (auto simp: covered_def mergeStep_def ids_mergedRecords)
qed

lemma covered_fold_mergeStep:
  assumes "\<forall>y \<in> set ys. finiteTimes y \<and> recordsDescending y"
  shows "keyed m \<Longrightarrow> finiteMap m \<Longrightarrow> covered x m \<or> x \<in> set ys \<Longrightarrow>
     covered x (fold mergeStep ys m)"
  using assms
proof (induction ys arbitrary: m)
  case Nil
  then show ?case by simp
next
  case (Cons y ys)
  have k: "keyed (mergeStep y m)" using Cons.prems(1) by (rule keyed_mergeStep)
  have f: "finiteMap (mergeStep y m)" using Cons.prems(2,4) by (simp add: finiteMap_mergeStep)
  have "covered x (mergeStep y m) \<or> x \<in> set ys"
  proof (cases "covered x m")
    case True
    then show ?thesis using Cons.prems by (simp add: covered_mergeStep_other)
  next
    case False
    with Cons.prems(3) have "x = y \<or> x \<in> set ys" by auto
    then show ?thesis using Cons.prems by (auto simp: covered_mergeStep_self)
  qed
  with Cons.IH [OF k f] Cons.prems(4) show ?case by simp
qed


lemma seedStep_new: "ledger_id l \<notin> fst ` set m \<Longrightarrow> seedStep l m = m @ [(ledger_id l, l)]"
  by (simp add: seedStep_def mapSet_new)

lemma fold_seedStep_distinct:
  "distinct (map ledger_id ls) \<Longrightarrow> ledger_id ` set ls \<inter> fst ` set m = {} \<Longrightarrow>
     fold seedStep ls m = m @ map (\<lambda>l. (ledger_id l, l)) ls"
proof (induction ls arbitrary: m)
  case Nil
  show ?case by simp
next
  case (Cons l ls)
  have 1: "seedStep l m = m @ [(ledger_id l, l)]"
    using Cons.prems by (intro seedStep_new) auto
  have 2: "ledger_id ` set ls \<inter> fst ` set (m @ [(ledger_id l, l)]) = {}"
    using Cons.prems by auto
  show ?case using Cons.prems Cons.IH [OF _ 2] by (simp add: 1)
qed

lemma seed_values:
  "distinct (map ledger_id ls) \<Longrightarrow> mapValues (fold seedStep ls []) = ls"
  by (simp add: fold_seedStep_distinct mapValues_def comp_def)

lemma keyed_pairs: "keyed m \<Longrightarrow> (\<lambda>l. (ledger_id l, l)) ` snd ` set m = set m"
  by (force simp: keyed_def image_iff)

lemma seed_of_values:
  assumes "keyed m" and "set ls = set (mapValues m)" and "distinct (map ledger_id ls)"
  shows "map_of (fold seedStep ls []) = map_of m"
proof -
  let ?s = "map (\<lambda>l. (ledger_id l, l)) ls"
  have "set ?s = set m"
    using keyed_pairs [OF assms(1)] assms(2) by (simp add: mapValues_def)
  moreover have "distinct (map fst ?s)" using assms(3) by (simp add: comp_def)
  moreover have "distinct (map fst m)" using assms(1) by (simp add: keyed_def)
  ultimately have "map_of ?s = map_of m" by (simp add: map_of_inject_set)
  then show ?thesis using assms(3) by (simp add: fold_seedStep_distinct)
qed

lemma covered_cong: "map_of m' = map_of m \<Longrightarrow> covered x m' = covered x m"
  by (simp add: covered_def)

lemma merge_again:
  assumes fin: "\<forall>l \<in> set existing \<union> set incoming. finiteTimes l"
    and desc: "\<forall>l \<in> set incoming. recordsDescending l"
  shows "mergeLedgers (mergeLedgers existing incoming) incoming = mergeLedgers existing incoming"
proof -
  let ?seeded = "fold seedStep existing []"
  let ?merged = "fold mergeStep incoming ?seeded"
  let ?R = "mergeLedgers existing incoming"
  let ?again = "fold seedStep ?R []"
  have k0: "keyed ?seeded" by (simp add: keyed_fold_seedStep)
  have k1: "keyed ?merged" by (simp add: keyed_fold_mergeStep k0)
  have f0: "finiteMap ?seeded"
    using fin by (intro finiteMap_fold_seedStep) (simp_all add: finiteMap_def)
  have f1: "finiteMap ?merged"
    using fin by (intro finiteMap_fold_mergeStep f0) simp
  have R: "?R = arraySort byCreatedAtAsc (mapValues ?merged)"
    by (simp add: mergeLedgers_def)
  have dR: "distinct (map ledger_id ?R)" by (rule distinct_ids_mergeLedgers)
  have sR: "set ?R = set (mapValues ?merged)" by (simp add: R)
  have m: "map_of ?again = map_of ?merged"
    using k1 sR dR by (rule seed_of_values)
  have k2: "keyed ?again" by (simp add: keyed_fold_seedStep)
  have c: "\<forall>x \<in> set incoming. covered x ?again"
  proof
    fix x assume "x \<in> set incoming"
    then have "covered x ?merged"
      using fin desc by (intro covered_fold_mergeStep k0 f0) auto
    then show "covered x ?again" using covered_cong [OF m] by simp
  qed
  have "fold mergeStep incoming ?again = ?again"
    using k2 c by (rule fold_mergeStep_covered)
  then have "mergeLedgers ?R incoming = arraySort byCreatedAtAsc (mapValues ?again)"
    by (simp add: mergeLedgers_def)
  also have "\<dots> = arraySort byCreatedAtAsc ?R"
    using dR by (simp add: seed_values)
  also have "\<dots> = ?R"
  proof -
    have "\<forall>l \<in> set (mapValues ?merged). isFinite (createdAt l)"
      using f1 by (auto simp: finiteMap_def finiteTimes_def mapValues_def)
    then show ?thesis unfolding R by (rule sortLedgers_idem)
  qed
  finally show ?thesis .
qed

lemma merge_self:
  assumes fin: "\<forall>l \<in> set ls. finiteTimes l"
    and desc: "\<forall>l \<in> set ls. recordsDescending l"
    and d: "distinct (map ledger_id ls)"
  shows "mergeLedgers ls ls = arraySort byCreatedAtAsc ls"
proof -
  let ?seeded = "fold seedStep ls []"
  have k0: "keyed ?seeded" by (simp add: keyed_fold_seedStep)
  have c: "\<forall>x \<in> set ls. covered x ?seeded"
  proof
    fix x assume x: "x \<in> set ls"
    have "arraySort byTimestampDesc (records x) = records x"
      using fin desc x by (intro sortRecords_id) (auto simp: finiteTimes_def recordsDescending_def)
    then show "covered x ?seeded"
      using seed_lookup [OF d x, of "[]"] by (simp add: covered_def)
  qed
  have "fold mergeStep ls ?seeded = ?seeded"
    using k0 c by (rule fold_mergeStep_covered)
  then show ?thesis using d by (simp add: mergeLedgers_def seed_values)
qed

lemma num_min_finite: "isFinite a \<Longrightarrow> isFinite b \<Longrightarrow> isFinite (num_min a b)"
  by (auto simp: isFinite_iff)

lemma finiteCreated_mapSet:
  "finiteCreated m \<Longrightarrow> isFinite (createdAt v) \<Longrightarrow> finiteCreated (mapSet k v m)"
  unfolding finiteCreated_def using set_mapSet_subset [of k v m] by auto

lemma finiteCreated_dedupeStep:
  assumes "finiteCreated m" and "isFinite (createdAt l)"
  shows "finiteCreated (dedupeStep l m)"
proof (cases "map_of m (ledger_id l)")
  case None
  with assms show ?thesis by (simp add: dedupeStep_def finiteCreated_mapSet)
next
  case (Some v)
  then have "isFinite (createdAt v)"
    using assms(1) unfolding finiteCreated_def by (force dest: map_of_SomeD)
  with Some assms show ?thesis
    by (simp add: dedupeStep_def finiteCreated_mapSet num_min_finite)
qed

lemma finiteCreated_fold_dedupeStep:
  "finiteCreated m \<Longrightarrow> \<forall>l \<in> set ls. isFinite (createdAt l) \<Longrightarrow>
     finiteCreated (fold dedupeStep ls m)"
  by (induction ls arbitrary: m) (simp_all add: finiteCreated_dedupeStep)

lemma dedupe_again:
  assumes "\<forall>l \<in> set ls. isFinite (createdAt l)"
  shows "dedupeLedgersById (dedupeLedgersById ls) = dedupeLedgersById ls"
proof -
  have "finiteCreated (fold dedupeStep ls [])"
    using assms by (intro finiteCreated_fold_dedupeStep) (simp_all add: finiteCreated_def)
  then have "\<forall>l \<in> set (mapValues (fold dedupeStep ls [])). isFinite (createdAt l)"
    by (auto simp: finiteCreated_def mapValues_def)
  then have "arraySort byCreatedAtAsc (dedupeLedgersById ls) = dedupeLedgersById ls"
    unfolding dedupeLedgersById_def by (rule sortLedgers_idem)
  then show ?thesis
    using dedupe_distinct [OF distinct_ids_dedupeLedgersById [of ls]] by simp
qed

text \<open>
  Claim C3, amended. With finite \<open>createdAt\<close> and timestamps throughout and the records
  of every incoming ledger in descending timestamp order, merging the incoming ledgers into the
  result of \<open>mergeLedgers existing incoming\<close> once more changes nothing, and so does
  running \<open>dedupeLedgersById\<close> on its own result. Merging a list of ledgers of distinct
  ids with itself yields the list sorted by ascending \<open>createdAt\<close>: the list itself when
  it was already in that order.
\<close>

theorem merge_idempotent:
  assumes "\<forall>l \<in> set existing \<union> set incoming. finiteTimes l"
    and "\<forall>l \<in> set incoming. recordsDescending l"
  shows "mergeLedgers (mergeLedgers existing incoming) incoming = mergeLedgers existing incoming \<and>
         dedupeLedgersById (dedupeLedgersById incoming) = dedupeLedgersById incoming \<and>
         (distinct (map ledger_id incoming) \<longrightarrow>
            mergeLedgers incoming incoming = arraySort byCreatedAtAsc incoming) \<and>
         (distinct (map ledger_id incoming) \<and> createdAscending incoming \<longrightarrow>
            mergeLedgers incoming incoming = incoming)"
proof (intro conjI impI)
  show "mergeLedgers (mergeLedgers existing incoming) incoming = mergeLedgers existing incoming"
    using assms by (rule merge_again)
next
  show "dedupeLedgersById (dedupeLedgersById incoming) = dedupeLedgersById incoming"
    using assms(1) by (intro dedupe_again) (simp add: finiteTimes_def)
next
  assume "distinct (map ledger_id incoming)"
  then show "mergeLedgers incoming incoming = arraySort byCreatedAtAsc incoming"
    using assms by (intro merge_self) simp_all
next
  assume h: "distinct (map ledger_id incoming) \<and> createdAscending incoming"
  then have "mergeLedgers incoming incoming = arraySort byCreatedAtAsc incoming"
    using assms by (intro merge_self) simp_all
  also have "\<dots> = incoming"
    using assms(1) h by (intro sortLedgers_id) (simp_all add: finiteTimes_def)
  finally show "mergeLedgers incoming incoming = incoming" .
qed

theorem merge_idempotent_witness:
  "mergeLedgers
     (mergeLedgers
        [sampleLedger ''L1'' ''A'' 1000 [sampleRecord ''r1'' 10]]
        [sampleLedger ''L1'' ''B'' 500 [sampleRecord ''r2'' 20, sampleRecord ''r1'' 10],
         sampleLedger ''L3'' ''C'' 3000 []])
     [sampleLedger ''L1'' ''B'' 500 [sampleRecord ''r2'' 20, sampleRecord ''r1'' 10],
      sampleLedger ''L3'' ''C'' 3000 []]
   = mergeLedgers
        [sampleLedger ''L1'' ''A'' 1000 [sampleRecord ''r1'' 10]]
        [sampleLedger ''L1'' ''B'' 500 [sampleRecord ''r2'' 20, sampleRecord ''r1'' 10],
         sampleLedger ''L3'' ''C'' 3000 []] \<and>
   mergeLedgers
     [sampleLedger ''L1'' ''B'' 500 [sampleRecord ''r2'' 20, sampleRecord ''r1'' 10],
      sampleLedger ''L3'' ''C'' 3000 []]
     [sampleLedger ''L1'' ''B'' 500 [sampleRecord ''r2'' 20, sampleRecord ''r1'' 10],
      sampleLedger ''L3'' ''C'' 3000 []]
   = [sampleLedger ''L1'' ''B'' 500 [sampleRecord ''r2'' 20, sampleRecord ''r1'' 10],
      sampleLedger ''L3'' ''C'' 3000 []]"
proof -
  let ?E = "[sampleLedger ''L1'' ''A'' 1000 [sampleRecord ''r1'' 10]]"
  let ?I = "[sampleLedger ''L1'' ''B'' 500 [sampleRecord ''r2'' 20, sampleRecord ''r1'' 10],
             sampleLedger ''L3'' ''C'' 3000 []]"
  have h1: "\<forall>l \<in> set ?E \<union> set ?I. finiteTimes l"
    by (simp add: finiteTimes_def sample_defs)
  have h2: "\<forall>l \<in> set ?I. recordsDescending l"
    by (simp add: recordsDescending_def sample_defs)
  have h3: "distinct (map ledger_id ?I) \<and> createdAscending ?I"
    by (simp add: createdAscending_def sample_defs)
  from merge_idempotent [OF h1 h2] h3 show ?thesis by blast
qed

theorem merge_self_counterexample:
  "mergeLedgers
     [sampleLedger ''L2'' ''B'' 2000 [], sampleLedger ''L1'' ''A'' 1000 []]
     [sampleLedger ''L2'' ''B'' 2000 [], sampleLedger ''L1'' ''A'' 1000 []]
   = [sampleLedger ''L1'' ''A'' 1000 [], sampleLedger ''L2'' ''B'' 2000 []] \<and>
   [sampleLedger ''L1'' ''A'' 1000 [], sampleLedger ''L2'' ''B'' 2000 []]
     \<noteq> [sampleLedger ''L2'' ''B'' 2000 [], sampleLedger ''L1'' ''A'' 1000 []]"
  by (simp add: mergeLedgers_def mergeStep_def seedStep_def mergedRecords_def mapValues_def
      arraySort_def byTimestampDesc_def byCreatedAtAsc_def sample_defs)

end
